theory Spec2Isabelle
  imports Main
begin

section \<open>Errors\<close>

text \<open>
  The library signals failure by throwing \<open>std::invalid_argument\<close> or
  \<open>std::domain_error\<close>. A fallible operation returns \<open>error + 'a\<close>, with \<open>Inl\<close>
  for the exception that is thrown.
\<close>

datatype error = InvalidArgument | DomainError

section \<open>The bignum layer\<close>

text \<open>
  Modelled from the spec: the \<open>BigInt\<close> class (\<open>gmp_wrapper.h\<close>) is an exact signed
  mathematical integer. Its division and remainder truncate towards zero, as the
  built-in operators of C++ do; the callers test the sign of a remainder
  (\<open>is_negative\<close>) after every \<open>%\<close> whose dividend may be negative. A zero divisor
  is never reached from the functions below under the hypotheses of their theorems.
\<close>

definition bquot :: "int \<Rightarrow> int \<Rightarrow> int" where
  "bquot a b = sgn a * sgn b * (\<bar>a\<bar> div \<bar>b\<bar>)"

definition bmod :: "int \<Rightarrow> int \<Rightarrow> int" where
  "bmod a b = sgn a * (\<bar>a\<bar> mod \<bar>b\<bar>)"

text \<open>
  Modelled from the spec: \<open>BigInt::pow(k)\<close> is exact exponentiation for \<open>k \<ge> 0\<close>.
\<close>

definition bpow :: "int \<Rightarrow> int \<Rightarrow> int" where
  "bpow b k = b ^ nat k"

text \<open>
  Modelled from the spec: \<open>is_divisible_by(d)\<close> is the divisibility test;
  \<open>mod_inverse(m)\<close> returns the inverse in \<open>[0, m)\<close> and fails when the
  argument is not coprime to the modulus. The inverse is computed by the extended
  Euclidean algorithm.
\<close>

definition is_divisible_by :: "int \<Rightarrow> int \<Rightarrow> bool" where
  "is_divisible_by a d \<longleftrightarrow> d dvd a"

function xgcd :: "int \<Rightarrow> int \<Rightarrow> int \<times> int \<times> int" where
  "xgcd a b =
     (if b = 0 then (a, 1, 0)
      else (case xgcd b (a mod b) of (g, s, t) \<Rightarrow> (g, t, s - (a div b) * t)))"
  by pat_completeness auto
termination
  by (relation "measure (\<lambda>(a, b). nat \<bar>b\<bar>)") (auto simp: abs_mod_less)

declare xgcd.simps [simp del]

definition mod_inverse :: "int \<Rightarrow> int \<Rightarrow> error + int" where
  "mod_inverse a m =
     (case xgcd a m of (g, s, t) \<Rightarrow> if g \<noteq> 1 then Inl DomainError else Inr (s mod m))"

text \<open>
  Modelled from the spec: \<open>BigInt::pow_mod(e, m)\<close> is modular exponentiation, with the
  result in \<open>[0, m)\<close> for a positive modulus.
\<close>

definition bpow_mod :: "int \<Rightarrow> int \<Rightarrow> int \<Rightarrow> int" where
  "bpow_mod b e m = (b ^ nat e) mod m"

section \<open>Machine integers\<close>

text \<open>
  The type \<open>long\<close> is the 64-bit signed integer. The built-in \<open>/\<close> and \<open>%\<close>
  truncate towards zero; \<open>std::gcd\<close> and \<open>std::lcm\<close> are \<open>gcd\<close> and \<open>lcm\<close>. A
  product of two \<open>long\<close> values can leave the range: the compiled code keeps the
  low 64 bits, and \<open>lmul\<close> is that product. Sums, differences and increments are
  exact in the model: they leave the range only next to \<open>2^63\<close>.
\<close>

abbreviation ldiv :: "int \<Rightarrow> int \<Rightarrow> int" where
  "ldiv \<equiv> bquot"

abbreviation lmod :: "int \<Rightarrow> int \<Rightarrow> int" where
  "lmod \<equiv> bmod"

definition wrap_long :: "int \<Rightarrow> int" where
  "wrap_long x = (x + 9223372036854775808) mod 18446744073709551616 - 9223372036854775808"

definition lmul :: "int \<Rightarrow> int \<Rightarrow> int" where
  "lmul a b = wrap_long (a * b)"

section \<open>Zp: p-adic integers with tracked precision (zp.h)\<close>

record Zp =
  zp_prime :: int
  zp_precision :: int
  zp_value :: int

text \<open>\<open>Zp::normalize\<close>: reduce the value into \<open>[0, p^N)\<close>.\<close>

definition normalize_value :: "int \<Rightarrow> int \<Rightarrow> int \<Rightarrow> int" where
  "normalize_value p N v =
     (let p_power = bpow p N; v1 = bmod v p_power
      in if v1 < 0 then v1 + p_power else v1)"

text \<open>
  The constructor \<open>Zp(p, N, val)\<close>: \<open>validate_prime\<close>, \<open>validate_precision\<close>, then
  \<open>normalize\<close>.
\<close>

definition Zp_new :: "int \<Rightarrow> int \<Rightarrow> int \<Rightarrow> error + Zp" where
  "Zp_new p N v =
     (if p < 2 then Inl InvalidArgument
      else if N < 1 then Inl InvalidArgument
      else Inr \<lparr>zp_prime = p, zp_precision = N, zp_value = normalize_value p N v\<rparr>)"

text \<open>The class invariant that every constructed \<open>Zp\<close> satisfies.\<close>

definition Zp_inv :: "Zp \<Rightarrow> bool" where
  "Zp_inv x \<longleftrightarrow>
     2 \<le> zp_prime x \<and> 1 \<le> zp_precision x \<and>
     0 \<le> zp_value x \<and> zp_value x < bpow (zp_prime x) (zp_precision x)"

text \<open>\<open>Zp::operator+\<close>\<close>

definition Zp_add :: "Zp \<Rightarrow> Zp \<Rightarrow> error + Zp" where
  "Zp_add x y =
     (if zp_prime x \<noteq> zp_prime y then Inl InvalidArgument
      else let min_prec = min (zp_precision x) (zp_precision y);
               p_power = bpow (zp_prime x) min_prec;
               sum = bmod (zp_value x + zp_value y) p_power
           in Zp_new (zp_prime x) min_prec sum)"

text \<open>\<open>Zp::operator-\<close> (binary)\<close>

definition Zp_sub :: "Zp \<Rightarrow> Zp \<Rightarrow> error + Zp" where
  "Zp_sub x y =
     (if zp_prime x \<noteq> zp_prime y then Inl InvalidArgument
      else let min_prec = min (zp_precision x) (zp_precision y);
               p_power = bpow (zp_prime x) min_prec;
               diff = bmod (zp_value x - zp_value y) p_power;
               diff1 = (if diff < 0 then diff + p_power else diff)
           in Zp_new (zp_prime x) min_prec diff1)"

text \<open>\<open>Zp::operator*\<close>\<close>

definition Zp_mul :: "Zp \<Rightarrow> Zp \<Rightarrow> error + Zp" where
  "Zp_mul x y =
     (if zp_prime x \<noteq> zp_prime y then Inl InvalidArgument
      else let min_prec = min (zp_precision x) (zp_precision y);
               p_power = bpow (zp_prime x) min_prec;
               prod = bmod (zp_value x * zp_value y) p_power
           in Zp_new (zp_prime x) min_prec prod)"

text \<open>
  \<open>Zp::from_rational\<close>. The loop that strips the factors of \<open>p\<close> from the
  denominator does not exit for \<open>p = 1\<close> or \<open>p = -1\<close>, so it is a partial
  function: \<open>None\<close> stands for a call that never returns.
\<close>

partial_function (option) strip_prime :: "int \<Rightarrow> int \<Rightarrow> int option" where
  "strip_prime den p =
     (if is_divisible_by den p then strip_prime (bquot den p) p else Some den)"

declare strip_prime.simps [code]

definition from_rational :: "int \<Rightarrow> int \<Rightarrow> int \<Rightarrow> int \<Rightarrow> (error + Zp) option" where
  "from_rational numerator denominator p N =
     (if denominator = 0 then Some (Inl DomainError)
      else case strip_prime denominator p of
        None \<Rightarrow> None
      | Some den \<Rightarrow>
          (let p_power = bpow p N
           in case mod_inverse den p_power of
                Inl e \<Rightarrow> Some (Inl e)
              | Inr dinv \<Rightarrow> Some (Zp_new p N (bmod (numerator * dinv) p_power))))"

text \<open>
  The round trip of the spec: \<open>from_rational(a, b, p, N)\<close> returns a value, and
  multiplying it by \<open>Zp(p, N, b)\<close> gives \<open>Zp(p, N, a)\<close>.
\<close>

definition recovers_numerator :: "int \<Rightarrow> int \<Rightarrow> int \<Rightarrow> int \<Rightarrow> bool" where
  "recovers_numerator a b p N =
     (case (from_rational a b p N, Zp_new p N b, Zp_new p N a) of
        (Some (Inr q), Inr zb, Inr za) \<Rightarrow> Zp_mul q zb = Inr za
      | _ \<Rightarrow> False)"

subsection \<open>Square roots (\<open>Zp::sqrt\<close>)\<close>

definition is_unit :: "Zp \<Rightarrow> bool" where
  "is_unit x \<longleftrightarrow> \<not> is_divisible_by (zp_value x) (zp_prime x)"

text \<open>
  The loops of the Tonelli-Shanks part carry no bound in the source, so each is a
  partial function. \<open>split_twos\<close> writes \<open>p - 1 = q * 2^s\<close> with \<open>q\<close> odd;
  \<open>find_nonresidue\<close> searches \<open>z = 2, 3, ...\<close> for a quadratic non-residue;
  \<open>order_exponent\<close> squares \<open>t2\<close> until it is 1 and counts the squarings;
  \<open>square_times\<close> is the counted loop over \<open>j\<close>; \<open>tonelli_loop\<close> is the
  outer loop \<open>while (!t.is_one())\<close>.
\<close>

partial_function (option) split_twos :: "int \<Rightarrow> int \<Rightarrow> (int \<times> int) option" where
  "split_twos q s =
     (if bmod q 2 = 0 then split_twos (bquot q 2) (s + 1) else Some (q, s))"

declare split_twos.simps [code]

partial_function (option) find_nonresidue :: "int \<Rightarrow> int \<Rightarrow> int option" where
  "find_nonresidue z p =
     (if bpow_mod z (bquot (p - 1) 2) p \<noteq> p - 1 then find_nonresidue (z + 1) p
      else Some z)"

declare find_nonresidue.simps [code]

partial_function (option) order_exponent :: "int \<Rightarrow> int \<Rightarrow> int \<Rightarrow> int option" where
  "order_exponent t2 i p =
     (if t2 \<noteq> 1 then order_exponent (bmod (t2 * t2) p) (i + 1) p else Some i)"

declare order_exponent.simps [code]

function square_times :: "int \<Rightarrow> int \<Rightarrow> int \<Rightarrow> int \<Rightarrow> int" where
  "square_times b j n p =
     (if j < n then square_times (bmod (b * b) p) (j + 1) n p else b)"
  by pat_completeness auto
termination
  by (relation "measure (\<lambda>(b, j, n, p). nat (n - j))") auto

declare square_times.simps [simp del]

partial_function (option) tonelli_loop ::
  "int \<Rightarrow> int \<Rightarrow> int \<Rightarrow> int \<Rightarrow> int \<Rightarrow> int option" where
  "tonelli_loop m c t r p =
     (if t \<noteq> 1 then
        Option.bind (order_exponent (bmod (t * t) p) 1 p)
          (\<lambda>i. let b = square_times c 0 (m - i - 1) p;
                   c1 = bmod (b * b) p
               in tonelli_loop i c1 (bmod (t * c1) p) (bmod (r * b) p) p)
      else Some r)"

declare tonelli_loop.simps [code]

text \<open>The root modulo \<open>p\<close> that the lifting starts from.\<close>

definition initial_root :: "int \<Rightarrow> int \<Rightarrow> int option" where
  "initial_root p v =
     (if p = 2 then Some 1
      else
        Option.bind (split_twos (p - 1) 0) (\<lambda>(q, s).
        Option.bind (find_nonresidue 2 p) (\<lambda>z.
          tonelli_loop s (bpow_mod z q p) (bpow_mod v q p)
            (bpow_mod v (bquot (q + 1) 2) p) p)))"

text \<open>
  The lifting loop \<open>for (k = 1; k < precision; ++k)\<close>. The modular inverse of
  \<open>2 * root\<close> modulo \<open>p\<close> may fail; the failure leaves the loop as an error.
\<close>

function hensel_lift :: "int \<Rightarrow> int \<Rightarrow> int \<Rightarrow> int \<Rightarrow> int \<Rightarrow> error + int" where
  "hensel_lift k N p v root =
     (if k < N then
        (let pk = bpow p k;
             pk1 = pk * p;
             f = bmod (root * root - v) pk1
         in if f \<noteq> 0 then
              (case mod_inverse (2 * root) p of
                 Inl e \<Rightarrow> Inl e
               | Inr dinv \<Rightarrow>
                   (let correction = bquot f pk * dinv;
                        root1 = bmod (root - correction * pk) pk1;
                        root2 = (if root1 < 0 then root1 + pk1 else root1)
                    in hensel_lift (k + 1) N p v root2))
            else hensel_lift (k + 1) N p v root)
      else Inr root)"
  by pat_completeness auto
termination
  by (relation "measure (\<lambda>(k, N, p, v, root). nat (N - k))") auto

declare hensel_lift.simps [simp del]

definition Zp_sqrt :: "Zp \<Rightarrow> (error + Zp) option" where
  "Zp_sqrt x =
     (if \<not> is_unit x then Some (Inl DomainError)
      else if zp_prime x = 2 \<and> bmod (zp_value x) 8 \<noteq> 1 then Some (Inl DomainError)
      else if zp_prime x \<noteq> 2 \<and>
              bpow_mod (zp_value x) (bquot (zp_prime x - 1) 2) (zp_prime x) \<noteq> 1
           then Some (Inl DomainError)
      else
        Option.bind (initial_root (zp_prime x) (zp_value x)) (\<lambda>root0.
          case hensel_lift 1 (zp_precision x) (zp_prime x) (zp_value x) root0 of
            Inl e \<Rightarrow> Some (Inl e)
          | Inr root \<Rightarrow> Some (Zp_new (zp_prime x) (zp_precision x) root)))"

text \<open>
  A result is canonical for prime \<open>p\<close> and precision \<open>N\<close> when the operation
  returned a value (no exception), that value carries \<open>p\<close> and \<open>N\<close>, and its
  integer representative lies in \<open>[0, p^N)\<close>.
\<close>

definition canonical_result :: "int \<Rightarrow> int \<Rightarrow> error + Zp \<Rightarrow> bool" where
  "canonical_result p N r =
     (case r of
        Inl e \<Rightarrow> False
      | Inr z \<Rightarrow> zp_prime z = p \<and> zp_precision z = N \<and>
                 0 \<le> zp_value z \<and> zp_value z < p ^ nat N)"

section \<open>Dirichlet characters (characters.h)\<close>

text \<open>
  The class without its mutable member: \<open>value_cache\<close> is the state that
  \<open>evaluate_cyclotomic\<close> takes and returns.
\<close>

record DirichletCharacter =
  conductor :: int
  modulus :: int
  chi_prime :: int
  generators :: "int list"
  generator_orders :: "int list"
  character_values :: "int list"

text \<open>\<open>DirichletCharacter::pow_mod\<close>: square and multiply.\<close>

function pow_mod_loop :: "int \<Rightarrow> int \<Rightarrow> int \<Rightarrow> int \<Rightarrow> int" where
  "pow_mod_loop result base e m =
     (if e > 0 then
        pow_mod_loop (if lmod e 2 = 1 then lmod (lmul result base) m else result)
          (lmod (lmul base base) m) (ldiv e 2) m
      else result)"
  by pat_completeness auto
termination
proof (relation "measure (\<lambda>(result, base, e, m). nat e)")
  fix result base e m :: int
  assume "0 < e"
  then have "ldiv e 2 = e div 2" by (simp add: bquot_def)
  with \<open>0 < e\<close> show "((if lmod e 2 = 1 then lmod (lmul result base) m else result,
      lmod (lmul base base) m, ldiv e 2, m), result, base, e, m)
      \<in> measure (\<lambda>(result, base, e, m). nat e)" by simp
qed simp

declare pow_mod_loop.simps [simp del]

definition pow_mod :: "int \<Rightarrow> int \<Rightarrow> int \<Rightarrow> int" where
  "pow_mod base e m = pow_mod_loop 1 (lmod base m) e m"

subsection \<open>\<open>compute_generators\<close>\<close>

text \<open>
  \<open>divide_out n p pw\<close> is the loop \<open>while (n % p == 0) { pw++; n /= p; }\<close>; it
  does not exit for \<open>n = 0\<close>. \<open>odd_factors\<close> is the loop over the odd trial
  divisors \<open>p = 3, 5, ...\<close> while \<open>p * p <= n\<close>.
\<close>

partial_function (option) divide_out :: "int \<Rightarrow> int \<Rightarrow> int \<Rightarrow> (int \<times> int) option" where
  "divide_out n p pw =
     (if lmod n p = 0 then divide_out (ldiv n p) p (pw + 1) else Some (n, pw))"

declare divide_out.simps [code]

partial_function (option) odd_factors ::
  "int \<Rightarrow> int \<Rightarrow> (int \<times> int) list \<Rightarrow> (int \<times> (int \<times> int) list) option" where
  "odd_factors p n fs =
     (if lmul p p \<le> n then
        Option.bind (divide_out n p 0)
          (\<lambda>(n1, pw). odd_factors (p + 2) n1 (if pw > 0 then fs @ [(p, pw)] else fs))
      else Some (n, fs))"

declare odd_factors.simps [code]

definition factorization :: "int \<Rightarrow> (int \<times> int) list option" where
  "factorization n0 =
     Option.bind (divide_out n0 2 0) (\<lambda>(n, pow2).
     Option.bind (odd_factors 3 n (if pow2 > 0 then [(2, pow2)] else [])) (\<lambda>(n1, fs).
       Some (if n1 > 1 then fs @ [(n1, 1)] else fs)))"

text \<open>
  The test of a candidate \<open>g\<close>: the loop over \<open>d = 2, 3, ...\<close> while
  \<open>d * d <= p - 1\<close>, leaving with \<open>false\<close> at the first divisor \<open>d\<close> of
  \<open>p - 1\<close> with \<open>g^d = 1\<close> or \<open>g^((p-1)/d) = 1\<close> modulo \<open>p\<close>. The wrapped
  product \<open>d * d\<close> gives no bound on the number of rounds, so the test is a partial
  function.
\<close>

partial_function (option) is_primitive_from :: "int \<Rightarrow> int \<Rightarrow> int \<Rightarrow> bool option" where
  "is_primitive_from d g p =
     (if lmul d d \<le> p - 1 then
        (if lmod (p - 1) d = 0 \<and>
            (pow_mod g d p = 1 \<or> pow_mod g (ldiv (p - 1) d) p = 1)
         then Some False
         else is_primitive_from (d + 1) g p)
      else Some True)"

declare is_primitive_from.simps [code]

text \<open>The search \<open>while (true)\<close> for the generator of an odd prime power.\<close>

partial_function (option) find_generator :: "int \<Rightarrow> int \<Rightarrow> int \<Rightarrow> int option" where
  "find_generator g p k =
     Option.bind (is_primitive_from 2 g p) (\<lambda>is_primitive.
       if is_primitive then
         Some (if k > 1 \<and> pow_mod g (p - 1) (lmul p p) = 1 then g + p else g)
       else find_generator (g + 1) p k)"

declare find_generator.simps [code]

text \<open>
  The generators and orders that one prime power \<open>p^k\<close> contributes;
  \<open>pk_loop p i\<close> is \<open>pk\<close> after \<open>i\<close> rounds of the loop \<open>pk *= p\<close>.
\<close>

primrec pk_loop :: "int \<Rightarrow> nat \<Rightarrow> int" where
  "pk_loop p 0 = 1"
| "pk_loop p (Suc i) = lmul (pk_loop p i) p"

definition factor_generators :: "int \<Rightarrow> int \<Rightarrow> (int list \<times> int list) option" where
  "factor_generators p k =
     (let pk = pk_loop p (nat k)
      in if p = 2 \<and> k \<ge> 3 then Some ([- 1, 3], [2, ldiv pk 4])
         else if p = 2 \<and> k = 2 then Some ([- 1], [2])
         else if p = 2 \<and> k = 1 then Some ([], [])
         else Option.bind (find_generator 2 p k)
                (\<lambda>g. Some ([g], [pk - ldiv pk p])))"

fun all_factor_generators :: "(int \<times> int) list \<Rightarrow> (int list \<times> int list) option" where
  "all_factor_generators [] = Some ([], [])"
| "all_factor_generators ((p, k) # fs) =
     Option.bind (factor_generators p k) (\<lambda>(gs, os).
     Option.bind (all_factor_generators fs) (\<lambda>(gs1, os1). Some (gs @ gs1, os @ os1)))"

definition compute_generators :: "int \<Rightarrow> (int list \<times> int list) option" where
  "compute_generators m =
     (if m = 1 then Some ([], [])
      else Option.bind (factorization m) all_factor_generators)"

subsection \<open>Evaluation\<close>

text \<open>
  The search of \<open>express_in_generators\<close> for one generator: the first
  \<open>e = 0, 1, ..., order - 1\<close> with \<open>g^e = target (mod modulus)\<close>; the entry stays
  0 when there is none.
\<close>

function find_exponent :: "int \<Rightarrow> int \<Rightarrow> int \<Rightarrow> int \<Rightarrow> int \<Rightarrow> int" where
  "find_exponent e ord g m target =
     (if e < ord then
        (if pow_mod g e m = target then e else find_exponent (e + 1) ord g m target)
      else 0)"
  by pat_completeness auto
termination
  by (relation "measure (\<lambda>(e, ord, g, m, target). nat (ord - e))") auto

declare find_exponent.simps [simp del]

definition express_in_generators :: "DirichletCharacter \<Rightarrow> int \<Rightarrow> int list" where
  "express_in_generators chi a =
     (if gcd a (modulus chi) \<noteq> 1 then replicate (length (generators chi)) 0
      else map (\<lambda>i. find_exponent 0 (generator_orders chi ! i) (generators chi ! i)
                     (modulus chi)
                     (lmod (lmod a (modulus chi) + modulus chi) (modulus chi)))
             [0 ..< length (generators chi)])"

text \<open>
  One round of the loop of \<open>evaluate_at\<close> on the pair \<open>(result, order)\<close>.
\<close>

definition evaluate_step ::
  "DirichletCharacter \<Rightarrow> int list \<Rightarrow> nat \<Rightarrow> int \<times> int \<Rightarrow> int \<times> int" where
  "evaluate_step chi exps i = (\<lambda>(result, ord).
     if character_values chi ! i \<noteq> 0 then
       (let ord1 = lcm ord (generator_orders chi ! i)
        in (lmod (lmul result (pow_mod (character_values chi ! i) (exps ! i) ord1)) ord1,
            ord1))
     else (result, ord))"

definition evaluate_at :: "DirichletCharacter \<Rightarrow> int \<Rightarrow> int" where
  "evaluate_at chi n =
     (if gcd n (modulus chi) \<noteq> 1 then 0
      else
        (let n1 = lmod (lmod n (modulus chi) + modulus chi) (modulus chi);
             exps = express_in_generators chi n1
         in fst (fold (evaluate_step chi exps) [0 ..< length (generators chi)] (1, 1))))"

subsection \<open>Conductor and construction\<close>

definition factors_through :: "DirichletCharacter \<Rightarrow> int \<Rightarrow> bool" where
  "factors_through chi d =
     list_all (\<lambda>a. gcd a (modulus chi) \<noteq> 1 \<or> gcd a d \<noteq> 1 \<or>
                   evaluate_at chi a = evaluate_at chi (lmod a d))
       [1 .. modulus chi]"

definition compute_conductor :: "DirichletCharacter \<Rightarrow> DirichletCharacter" where
  "compute_conductor chi =
     (case find (\<lambda>d. lmod (modulus chi) d = 0 \<and> factors_through chi d)
             [1 .. modulus chi - 1] of
        None \<Rightarrow> chi\<lparr>conductor := modulus chi\<rparr>
      | Some d \<Rightarrow> chi\<lparr>conductor := d\<rparr>)"

text \<open>The constructor \<open>DirichletCharacter(mod, p)\<close> of the trivial character.\<close>

definition trivial_character :: "int \<Rightarrow> int \<Rightarrow> DirichletCharacter option" where
  "trivial_character m p =
     Option.bind (compute_generators m) (\<lambda>(gs, os).
       Some \<lparr>conductor = m, modulus = m, chi_prime = p, generators = gs,
             generator_orders = os, character_values = replicate (length gs) 0\<rparr>)"

text \<open>The constructor \<open>DirichletCharacter(mod, p, gen_values)\<close>.\<close>

definition character_of_values ::
  "int \<Rightarrow> int \<Rightarrow> int list \<Rightarrow> (error + DirichletCharacter) option" where
  "character_of_values m p gen_values =
     Option.bind (compute_generators m) (\<lambda>(gs, os).
       if length gen_values \<noteq> length gs then Some (Inl InvalidArgument)
       else Some (Inr (compute_conductor
              \<lparr>conductor = m, modulus = m, chi_prime = p, generators = gs,
               generator_orders = os, character_values = gen_values\<rparr>)))"

definition is_principal :: "DirichletCharacter \<Rightarrow> bool" where
  "is_principal chi = list_all (\<lambda>v. v = 1 \<or> v = 0) (character_values chi)"

text \<open>
  \<open>get_order\<close>: for each generator with a nonzero value, the first
  \<open>k = 1, ..., order\<close> with \<open>value^k = 1\<close> modulo the generator's order enters the
  least common multiple.
\<close>

function first_unit_power :: "int \<Rightarrow> int \<Rightarrow> int \<Rightarrow> int option" where
  "first_unit_power k v ord =
     (if k \<le> ord then
        (if pow_mod v k ord = 1 then Some k else first_unit_power (k + 1) v ord)
      else None)"
  by pat_completeness auto
termination
  by (relation "measure (\<lambda>(k, v, ord). nat (ord + 1 - k))") auto

declare first_unit_power.simps [simp del]

definition get_order :: "DirichletCharacter \<Rightarrow> int" where
  "get_order chi =
     (if is_principal chi then 1
      else fold (\<lambda>i ord.
             if character_values chi ! i \<noteq> 0 then
               (case first_unit_power 1 (character_values chi ! i)
                       (generator_orders chi ! i) of
                  None \<Rightarrow> ord
                | Some k \<Rightarrow> lcm ord k)
             else ord)
           [0 ..< length (character_values chi)] 1)"

subsection \<open>Enumeration\<close>

text \<open>
  The recursion \<open>generate(index)\<close> of \<open>enumerate_characters\<close> visits the value
  tuples in lexicographic order, the first generator slowest.
\<close>

fun value_tuples :: "int list \<Rightarrow> int list list" where
  "value_tuples [] = [[]]"
| "value_tuples (m # ms) = concat (map (\<lambda>v. map ((#) v) (value_tuples ms)) [0 .. m - 1])"

fun build_characters ::
  "int \<Rightarrow> int \<Rightarrow> int list list \<Rightarrow> (error + DirichletCharacter list) option" where
  "build_characters m p [] = Some (Inr [])"
| "build_characters m p (vs # vss) =
     (case character_of_values m p vs of
        None \<Rightarrow> None
      | Some (Inl e) \<Rightarrow> Some (Inl e)
      | Some (Inr chi) \<Rightarrow>
          (case build_characters m p vss of
             None \<Rightarrow> None
           | Some (Inl e) \<Rightarrow> Some (Inl e)
           | Some (Inr chis) \<Rightarrow> Some (Inr (chi # chis))))"

definition enumerate_characters ::
  "int \<Rightarrow> int \<Rightarrow> (error + DirichletCharacter list) option" where
  "enumerate_characters m p =
     Option.bind (trivial_character m p) (\<lambda>base.
       if length (generators base) = 0 then Some (Inr [base])
       else build_characters m p (value_tuples (generator_orders base)))"

subsection \<open>The value that the specification gives\<close>

text \<open>
  The value that the spec's words give: \<open>xs\<close> is a generator decomposition of
  \<open>a\<close> when \<open>0 \<le> x\<^sub>i < m\<^sub>i\<close> and the product of the \<open>g\<^sub>i ^ x\<^sub>i\<close> is
  \<open>a\<close> modulo the modulus, and the claimed value is the sum of the
  \<open>e\<^sub>i * x\<^sub>i\<close> modulo the least common multiple of the \<open>m\<^sub>i\<close> with
  \<open>e\<^sub>i \<noteq> 0\<close>.
\<close>

definition claimed_exponent :: "DirichletCharacter \<Rightarrow> int list \<Rightarrow> int" where
  "claimed_exponent chi xs =
     sum_list (map2 (*) (character_values chi) xs) mod
     fold lcm (map snd (filter (\<lambda>(e, m). e \<noteq> 0)
                 (zip (character_values chi) (generator_orders chi)))) 1"

definition generator_decomposition :: "DirichletCharacter \<Rightarrow> int \<Rightarrow> int list \<Rightarrow> bool" where
  "generator_decomposition chi a xs \<longleftrightarrow>
     list_all2 (\<lambda>x m. 0 \<le> x \<and> x < m) xs (generator_orders chi) \<and>
     prod_list (map2 (\<lambda>g x. g ^ nat x) (generators chi) xs) mod modulus chi
       = a mod modulus chi"

text \<open>
  The character modulo 5 with value 2 on the generator 2 (of order 4), attached
  prime 7, as \<open>DirichletCharacter(5, 7, {2})\<close> builds it.
\<close>

definition chi5 :: DirichletCharacter where
  "chi5 = \<lparr>conductor = 5, modulus = 5, chi_prime = 7, generators = [2],
     generator_orders = [4], character_values = [2]\<rparr>"

section \<open>Euler's totient and the factor list\<close>

text \<open>
  \<open>phi n\<close> counts the \<open>k\<close> in \<open>1, ..., n\<close> that are coprime to \<open>n\<close>.
  \<open>units_below n\<close> is the same set of residues taken in \<open>0, ..., n - 1\<close>, and
  \<open>is_prime\<close> is primality by trial of every smaller divisor.
\<close>

definition phi :: "int \<Rightarrow> int" where
  "phi n = int (length (filter (\<lambda>k. coprime k n) [1 .. n]))"

definition is_prime :: "int \<Rightarrow> bool" where
  "is_prime p \<longleftrightarrow> 2 \<le> p \<and> (\<forall>d. 2 \<le> d \<and> d < p \<longrightarrow> \<not> d dvd p)"

definition units_below :: "int \<Rightarrow> int set" where
  "units_below n = {x \<in> {0 ..< n}. coprime x n}"

text \<open>
  For a list of prime powers \<open>(p, k)\<close> as \<open>compute_generators\<close> collects it: the
  product of the \<open>p^k\<close>, the product of the \<open>p^k - p^(k-1)\<close>, and the invariant
  of the trial division, that the factors found so far and the part \<open>n\<close> still to be
  factored multiply to the modulus \<open>n0\<close>.
\<close>

definition factor_product :: "(int \<times> int) list \<Rightarrow> int" where
  "factor_product fs = prod_list (map (\<lambda>(p, k). p ^ nat k) fs)"

definition factor_totient :: "(int \<times> int) list \<Rightarrow> int" where
  "factor_totient fs = prod_list (map (\<lambda>(p, k). p ^ nat k - p ^ nat (k - 1)) fs)"

definition factors_ok :: "int \<Rightarrow> (int \<times> int) list \<Rightarrow> int \<Rightarrow> bool" where
  "factors_ok n0 fs n \<longleftrightarrow>
     n0 = factor_product fs * n \<and> coprime (factor_product fs) n \<and>
     1 \<le> factor_product fs \<and> phi (factor_product fs) = factor_totient fs \<and>
     (\<forall>(p, k) \<in> set fs. is_prime p \<and> 1 \<le> k)"

section \<open>Qp: p-adic numbers\<close>

text \<open>
  Modelled from the spec: the class \<open>Qp\<close> (\<open>qp.h\<close>) is not among the sources. A
  \<open>Qp\<close> is a pair of a valuation in \<open>Z \<union> {+\<infinity>}\<close> and a unit of \<open>Z\<^sub>p\<close> known to
  the tracked precision \<open>N\<close>; it stands for \<open>p^valuation * unit\<close>. The zero element
  has the valuation \<open>+\<infinity>\<close> and the unit 0. The operations mirror \<open>Zp\<close>: a binary
  operation needs equal primes and gives the smaller precision.
\<close>

datatype valuation = Val int | PosInf

text \<open>The comparison \<open>v >= k\<close> of a valuation with an integer.\<close>

fun val_ge :: "valuation \<Rightarrow> int \<Rightarrow> bool" where
  "val_ge (Val v) k \<longleftrightarrow> k \<le> v"
| "val_ge PosInf k \<longleftrightarrow> True"

record Qp =
  qp_prime :: int
  qp_precision :: int
  qp_valuation :: valuation
  qp_unit :: int

text \<open>
  Modelled from the spec: \<open>p_adic_valuation\<close> (\<open>modular_arith.h\<close>) counts the
  factors of \<open>p\<close> in a nonzero integer.
\<close>

function p_adic_valuation :: "int \<Rightarrow> int \<Rightarrow> int" where
  "p_adic_valuation n p =
     (if n \<noteq> 0 \<and> 2 \<le> p \<and> p dvd n then 1 + p_adic_valuation (n div p) p else 0)"
  by pat_completeness auto
termination
proof (relation "measure (\<lambda>(n, p). nat \<bar>n\<bar>)")
  fix n p :: int
  assume a: "n \<noteq> 0 \<and> 2 \<le> p \<and> p dvd n"
  then obtain k where k: "n = p * k" by (auto simp: dvd_def)
  with a have k0: "k \<noteq> 0" by auto
  have "n div p = k" using a k by simp
  moreover have "\<bar>k\<bar> < \<bar>n\<bar>"
  proof -
    have "1 * \<bar>k\<bar> < p * \<bar>k\<bar>" using a k0 by (intro mult_strict_right_mono) simp_all
    then show ?thesis using a by (simp add: k abs_mult)
  qed
  ultimately show "((n div p, p), n, p) \<in> measure (\<lambda>(n, p). nat \<bar>n\<bar>)" by simp
qed simp

declare p_adic_valuation.simps [simp del]

definition Qp_zero :: "int \<Rightarrow> int \<Rightarrow> Qp" where
  "Qp_zero p N = \<lparr>qp_prime = p, qp_precision = N, qp_valuation = PosInf, qp_unit = 0\<rparr>"

text \<open>
  The element \<open>p^v * s\<close> at unit precision \<open>N\<close>, for an integer \<open>s\<close> that is
  itself known modulo \<open>p^N\<close>: a residue 0 is the zero element; otherwise the
  factors of \<open>p\<close> of the residue move into the valuation.
\<close>

definition Qp_make :: "int \<Rightarrow> int \<Rightarrow> int \<Rightarrow> int \<Rightarrow> Qp" where
  "Qp_make p N v s =
     (let r = s mod p ^ nat N
      in if r = 0 then Qp_zero p N
         else (let k = p_adic_valuation r p
               in \<lparr>qp_prime = p, qp_precision = N, qp_valuation = Val (v + k),
                   qp_unit = r div p ^ nat k\<rparr>))"

text \<open>
  The constructor \<open>Qp(p, N, val)\<close> from an exact integer: the valuation of
  \<open>val\<close> is extracted and the part coprime to \<open>p\<close> is reduced modulo \<open>p^N\<close>.
\<close>

definition Qp_new :: "int \<Rightarrow> int \<Rightarrow> int \<Rightarrow> error + Qp" where
  "Qp_new p N val =
     (if p < 2 then Inl InvalidArgument
      else if N < 1 then Inl InvalidArgument
      else if val = 0 then Inr (Qp_zero p N)
      else (let k = p_adic_valuation val p
            in Inr \<lparr>qp_prime = p, qp_precision = N, qp_valuation = Val k,
                    qp_unit = (val div p ^ nat k) mod p ^ nat N\<rparr>))"

text \<open>The conversion \<open>Qp(z)\<close> from a \<open>Zp\<close>.\<close>

definition Qp_of_Zp :: "Zp \<Rightarrow> Qp" where
  "Qp_of_Zp z = Qp_make (zp_prime z) (zp_precision z) 0 (zp_value z)"

definition Qp_is_zero :: "Qp \<Rightarrow> bool" where
  "Qp_is_zero x \<longleftrightarrow> qp_unit x = 0"

definition Qp_with_precision :: "Qp \<Rightarrow> int \<Rightarrow> error + Qp" where
  "Qp_with_precision x N =
     (if N < 1 then Inl InvalidArgument
      else Inr (case qp_valuation x of
                  Val v \<Rightarrow> Qp_make (qp_prime x) N v (qp_unit x)
                | PosInf \<Rightarrow> Qp_zero (qp_prime x) N))"

definition Qp_add :: "Qp \<Rightarrow> Qp \<Rightarrow> error + Qp" where
  "Qp_add x y =
     (if qp_prime x \<noteq> qp_prime y then Inl InvalidArgument
      else (let N = min (qp_precision x) (qp_precision y);
                p = qp_prime x
            in Inr (case (qp_valuation x, qp_valuation y) of
                 (Val a, Val b) \<Rightarrow>
                   Qp_make p N (min a b)
                     (qp_unit x * p ^ nat (a - min a b) + qp_unit y * p ^ nat (b - min a b))
               | (Val a, PosInf) \<Rightarrow> Qp_make p N a (qp_unit x)
               | (PosInf, Val b) \<Rightarrow> Qp_make p N b (qp_unit y)
               | (PosInf, PosInf) \<Rightarrow> Qp_zero p N)))"

definition Qp_sub :: "Qp \<Rightarrow> Qp \<Rightarrow> error + Qp" where
  "Qp_sub x y =
     (if qp_prime x \<noteq> qp_prime y then Inl InvalidArgument
      else (let N = min (qp_precision x) (qp_precision y);
                p = qp_prime x
            in Inr (case (qp_valuation x, qp_valuation y) of
                 (Val a, Val b) \<Rightarrow>
                   Qp_make p N (min a b)
                     (qp_unit x * p ^ nat (a - min a b) - qp_unit y * p ^ nat (b - min a b))
               | (Val a, PosInf) \<Rightarrow> Qp_make p N a (qp_unit x)
               | (PosInf, Val b) \<Rightarrow> Qp_make p N b (- qp_unit y)
               | (PosInf, PosInf) \<Rightarrow> Qp_zero p N)))"

definition Qp_neg :: "Qp \<Rightarrow> Qp" where
  "Qp_neg x =
     (case qp_valuation x of
        Val v \<Rightarrow> Qp_make (qp_prime x) (qp_precision x) v (- qp_unit x)
      | PosInf \<Rightarrow> Qp_zero (qp_prime x) (qp_precision x))"

definition Qp_mul :: "Qp \<Rightarrow> Qp \<Rightarrow> error + Qp" where
  "Qp_mul x y =
     (if qp_prime x \<noteq> qp_prime y then Inl InvalidArgument
      else (let N = min (qp_precision x) (qp_precision y);
                p = qp_prime x
            in Inr (case (qp_valuation x, qp_valuation y) of
                 (Val a, Val b) \<Rightarrow> Qp_make p N (a + b) (qp_unit x * qp_unit y)
               | (Val a, PosInf) \<Rightarrow> Qp_zero p N
               | (PosInf, b) \<Rightarrow> Qp_zero p N)))"

text \<open>Division needs a nonzero divisor; the unit of the divisor is inverted.\<close>

definition Qp_div :: "Qp \<Rightarrow> Qp \<Rightarrow> error + Qp" where
  "Qp_div x y =
     (if qp_prime x \<noteq> qp_prime y then Inl InvalidArgument
      else if Qp_is_zero y then Inl DomainError
      else (let N = min (qp_precision x) (qp_precision y);
                p = qp_prime x
            in case mod_inverse (qp_unit y) (p ^ nat N) of
                 Inl e \<Rightarrow> Inl e
               | Inr dinv \<Rightarrow>
                   Inr (case (qp_valuation x, qp_valuation y) of
                      (Val a, Val b) \<Rightarrow> Qp_make p N (a - b) (qp_unit x * dinv)
                    | (Val a, PosInf) \<Rightarrow> Qp_zero p N
                    | (PosInf, b) \<Rightarrow> Qp_zero p N)))"

text \<open>
  \<open>Qp::from_rational(a, b, p, N)\<close>: the valuation of \<open>a / b\<close> is extracted, the
  part coprime to \<open>p\<close> is reduced to precision \<open>N\<close>, the valuation is attached.
\<close>

definition Qp_from_rational :: "int \<Rightarrow> int \<Rightarrow> int \<Rightarrow> int \<Rightarrow> error + Qp" where
  "Qp_from_rational a b p N =
     (if b = 0 then Inl DomainError
      else if p < 2 then Inl InvalidArgument
      else if N < 1 then Inl InvalidArgument
      else if a = 0 then Inr (Qp_zero p N)
      else (let va = p_adic_valuation a p; vb = p_adic_valuation b p
            in case mod_inverse (b div p ^ nat vb) (p ^ nat N) of
                 Inl e \<Rightarrow> Inl e
               | Inr dinv \<Rightarrow>
                   Inr \<lparr>qp_prime = p, qp_precision = N, qp_valuation = Val (va - vb),
                        qp_unit = ((a div p ^ nat va) * dinv) mod p ^ nat N\<rparr>))"

text \<open>Sequencing of fallible steps: the first exception ends the computation.\<close>

definition ebind :: "error + 'a \<Rightarrow> ('a \<Rightarrow> error + 'b) \<Rightarrow> error + 'b" where
  "ebind r f = (case r of Inl e \<Rightarrow> Inl e | Inr v \<Rightarrow> f v)"

text \<open>\<open>Qp::pow\<close> for an exponent that is not negative.\<close>

definition Qp_pow :: "Qp \<Rightarrow> nat \<Rightarrow> Qp" where
  "Qp_pow x k =
     (case qp_valuation x of
        Val v \<Rightarrow> Qp_make (qp_prime x) (qp_precision x) (v * int k) (qp_unit x ^ k)
      | PosInf \<Rightarrow>
          if k = 0 then Qp_make (qp_prime x) (qp_precision x) 0 1
          else Qp_zero (qp_prime x) (qp_precision x))"

section \<open>Lifts of character values\<close>

text \<open>
  Modelled from the spec: \<open>teichmuller_character\<close> (\<open>modular_arith.h\<close>) is the
  fixed point of the iteration \<open>w \<leftarrow> w^p\<close> modulo \<open>p^N\<close>, reached from \<open>x\<close>
  after \<open>N - 1\<close> rounds.
\<close>

definition teichmuller_character :: "int \<Rightarrow> int \<Rightarrow> int \<Rightarrow> int" where
  "teichmuller_character x p N = bpow_mod x (p ^ nat (N - 1)) (p ^ nat N)"

text \<open>\<open>Zp::teichmuller\<close>\<close>

definition Zp_teichmuller :: "Zp \<Rightarrow> error + Zp" where
  "Zp_teichmuller z =
     Zp_new (zp_prime z) (zp_precision z)
       (teichmuller_character (zp_value z) (zp_prime z) (zp_precision z))"

text \<open>\<open>DirichletCharacter::evaluate\<close>\<close>

definition evaluate :: "DirichletCharacter \<Rightarrow> int \<Rightarrow> int \<Rightarrow> error + Zp" where
  "evaluate chi n N =
     (let chi_n = evaluate_at chi n
      in if chi_n = 0 then Zp_new (chi_prime chi) N 0
         else ebind (Zp_new (chi_prime chi) N chi_n) Zp_teichmuller)"

definition is_even :: "DirichletCharacter \<Rightarrow> bool" where
  "is_even chi \<longleftrightarrow> evaluate_at chi (- 1) = 1"

definition is_odd :: "DirichletCharacter \<Rightarrow> bool" where
  "is_odd chi \<longleftrightarrow> evaluate_at chi (- 1) = modulus chi - 1"

subsection \<open>Cyclotomic values and the per-character cache\<close>

text \<open>
  The class \<open>Cyclotomic\<close> (\<open>cyclotomic.h\<close>) is not among the sources; the
  operations that \<open>evaluate_cyclotomic\<close> calls are parameters: the zero element
  \<open>Cyclotomic(p, N)\<close>, the embedding \<open>Cyclotomic(p, N, q)\<close> of a \<open>Qp\<close>, the root
  of unity \<open>Cyclotomic::zeta(p, N)\<close> and the product.
\<close>

record 'c cyclotomic_ops =
  cyc_zero :: "int \<Rightarrow> int \<Rightarrow> 'c"
  cyc_of_qp :: "int \<Rightarrow> int \<Rightarrow> Qp \<Rightarrow> 'c"
  cyc_zeta :: "int \<Rightarrow> int \<Rightarrow> 'c"
  cyc_mul :: "'c \<Rightarrow> 'c \<Rightarrow> 'c"

text \<open>
  \<open>evaluate_cyclotomic\<close> takes the member \<open>value_cache\<close> (a \<open>std::map\<close> from
  \<open>long\<close> to \<open>Cyclotomic\<close>) and returns it with the result.
\<close>

definition evaluate_cyclotomic ::
  "'c cyclotomic_ops \<Rightarrow> DirichletCharacter \<Rightarrow> (int \<rightharpoonup> 'c) \<Rightarrow> int \<Rightarrow> int \<Rightarrow>
   (error + 'c) \<times> (int \<rightharpoonup> 'c)" where
  "evaluate_cyclotomic ops chi value_cache n N =
     (case value_cache n of
        Some v \<Rightarrow> (Inr v, value_cache)
      | None \<Rightarrow>
          (let chi_n = evaluate_at chi n
           in if chi_n = 0 then (Inr (cyc_zero ops (chi_prime chi) N), value_cache)
              else
                (let ord = get_order chi;
                     zeta = cyc_zeta ops (chi_prime chi) N
                 in case Qp_new (chi_prime chi) N 1 of
                      Inl e \<Rightarrow> (Inl e, value_cache)
                    | Inr one \<Rightarrow>
                        (let exponent = ldiv (lmul chi_n (chi_prime chi - 1)) ord;
                             result = ((\<lambda>r. cyc_mul ops r zeta) ^^ nat exponent)
                                        (cyc_of_qp ops (chi_prime chi) N one)
                         in (Inr result, value_cache(n \<mapsto> result))))))"

text \<open>
  A run of calls \<open>evaluate_cyclotomic(n, N)\<close> on one character, each on the cache
  the one before left.
\<close>

fun run_calls ::
  "'c cyclotomic_ops \<Rightarrow> DirichletCharacter \<Rightarrow> (int \<rightharpoonup> 'c) \<Rightarrow> (int \<times> int) list \<Rightarrow>
   (int \<rightharpoonup> 'c)" where
  "run_calls ops chi value_cache [] = value_cache"
| "run_calls ops chi value_cache ((n, N) # calls) =
     run_calls ops chi (snd (evaluate_cyclotomic ops chi value_cache n N)) calls"

text \<open>
  Cyclotomic values as the expressions that build them: the constructor calls and
  products, uninterpreted.
\<close>

datatype cyc_expr =
  CycZero int int
| CycOfQp int int Qp
| CycZeta int int
| CycMul cyc_expr cyc_expr

definition symbolic_ops :: "cyc_expr cyclotomic_ops" where
  "symbolic_ops = \<lparr>cyc_zero = CycZero, cyc_of_qp = CycOfQp, cyc_zeta = CycZeta,
     cyc_mul = CycMul\<rparr>"

section \<open>Kubota-Leopoldt L-functions (l_functions.h)\<close>

text \<open>The cache key \<open>LKey\<close>: \<open>(s, conductor, char_id, p, precision)\<close>.\<close>

type_synonym LKey = "int \<times> int \<times> int \<times> int \<times> int"

text \<open>
  What the evaluator takes from outside the sources:
  \<open>BernoulliNumbers::generalized_bernoulli(n, conductor, chi_func, p, N)\<close>, with
  the callback given by the character it evaluates, and the floating-point count
  \<open>precision * log(p) / log(2) + 10\<close> of terms of the positive branch.
\<close>

record l_externals =
  generalized_bernoulli :: "int \<Rightarrow> int \<Rightarrow> DirichletCharacter \<Rightarrow> int \<Rightarrow> int \<Rightarrow> error + Qp"
  num_terms :: "int \<Rightarrow> int \<Rightarrow> int"

text \<open>\<open>compute_B1_chi\<close>: one round of the loop over \<open>a\<close>, then the function.\<close>

definition B1_step ::
  "DirichletCharacter \<Rightarrow> int \<Rightarrow> int \<Rightarrow> error + Qp \<Rightarrow> error + Qp" where
  "B1_step chi N a acc =
     ebind acc (\<lambda>sum.
       if gcd a (conductor chi) \<noteq> 1 then Inr sum
       else
         ebind (evaluate chi a N) (\<lambda>chi_a.
         ebind (Qp_new (chi_prime chi) N a) (\<lambda>qa.
         ebind (Qp_mul (Qp_of_Zp chi_a) qa) (\<lambda>term.
           Qp_add sum term))))"

definition compute_B1_chi :: "DirichletCharacter \<Rightarrow> int \<Rightarrow> error + Qp" where
  "compute_B1_chi chi N =
     (if is_principal chi then Qp_from_rational (- 1) 2 (chi_prime chi) N
      else
        ebind (fold (B1_step chi N) [1 .. conductor chi] (Qp_new (chi_prime chi) N 0))
          (\<lambda>sum. ebind (Qp_new (chi_prime chi) N (conductor chi)) (\<lambda>f. Qp_div sum f)))"

text \<open>\<open>compute_euler_factor\<close>\<close>

definition compute_euler_factor :: "DirichletCharacter \<Rightarrow> int \<Rightarrow> int \<Rightarrow> error + Qp" where
  "compute_euler_factor chi s N =
     ebind (Qp_new (chi_prime chi) N 1) (\<lambda>one.
       if lmod (conductor chi) (chi_prime chi) = 0 then Inr one
       else
         ebind (evaluate chi (chi_prime chi) N) (\<lambda>chi_p.
         ebind (Qp_new (chi_prime chi) N (bpow (chi_prime chi) (s - 1))) (\<lambda>p_power.
         ebind (Qp_mul (Qp_of_Zp chi_p) p_power) (\<lambda>prod.
           Qp_sub one prod))))"

text \<open>\<open>compute_positive_value\<close>\<close>

definition positive_step ::
  "DirichletCharacter \<Rightarrow> int \<Rightarrow> int \<Rightarrow> int \<Rightarrow> error + Qp \<Rightarrow> error + Qp" where
  "positive_step chi s N n acc =
     ebind acc (\<lambda>sum.
       if lmod n (chi_prime chi) = 0 then Inr sum
       else
         ebind (evaluate chi n N) (\<lambda>chi_n.
           if zp_value chi_n \<noteq> 0 then
             ebind (Qp_new (chi_prime chi) N n) (\<lambda>qn.
             ebind (Qp_div (Qp_of_Zp chi_n) (Qp_pow qn (nat s))) (\<lambda>term.
               Qp_add sum term))
           else Inr sum))"

definition compute_positive_value ::
  "l_externals \<Rightarrow> int \<Rightarrow> DirichletCharacter \<Rightarrow> int \<Rightarrow> error + Qp" where
  "compute_positive_value ext s chi N =
     ebind (fold (positive_step chi s N) [1 .. num_terms ext N (chi_prime chi)]
              (Qp_new (chi_prime chi) N 0)) (\<lambda>sum.
     ebind (compute_euler_factor chi s N) (\<lambda>euler. Qp_mul euler sum))"

text \<open>
  The body of \<open>kubota_leopoldt\<close> after a cache miss: the three branches on the
  sign of \<open>s\<close>.
\<close>

definition compute_value ::
  "l_externals \<Rightarrow> int \<Rightarrow> DirichletCharacter \<Rightarrow> int \<Rightarrow> error + Qp" where
  "compute_value ext s chi N =
     ebind (Qp_new (chi_prime chi) N 0) (\<lambda>zero.
       if s = 0 then
         ebind (compute_B1_chi chi N) (\<lambda>B1_chi.
         ebind (compute_euler_factor chi 1 N) (\<lambda>euler_factor.
           Qp_mul (Qp_neg euler_factor) B1_chi))
       else if s < 0 then
         (let n = 1 - s
          in if n \<le> 0 then Inl InvalidArgument
             else if (lmod n 2 = 0 \<and> is_odd chi) \<or> (lmod n 2 = 1 \<and> is_even chi)
               then Qp_new (chi_prime chi) N 0
             else
               ebind (generalized_bernoulli ext n (conductor chi) chi (chi_prime chi) N)
                 (\<lambda>Bn_chi.
               ebind (compute_euler_factor chi n N) (\<lambda>euler_factor.
               ebind (Qp_mul (Qp_neg euler_factor) Bn_chi) (\<lambda>num.
               ebind (Qp_new (chi_prime chi) N n) (\<lambda>qn. Qp_div num qn)))))
       else compute_positive_value ext s chi N)"

text \<open>
  \<open>kubota_leopoldt\<close> on the static cache \<open>l_cache\<close>, which it takes and returns.
  An exception leaves the cache as it was.
\<close>

definition cache_key :: "int \<Rightarrow> DirichletCharacter \<Rightarrow> int \<Rightarrow> LKey" where
  "cache_key s chi N = (s, conductor chi, evaluate_at chi 2, chi_prime chi, N)"

definition kubota_leopoldt ::
  "l_externals \<Rightarrow> (LKey \<rightharpoonup> Qp) \<Rightarrow> int \<Rightarrow> DirichletCharacter \<Rightarrow> int \<Rightarrow>
   (error + Qp) \<times> (LKey \<rightharpoonup> Qp)" where
  "kubota_leopoldt ext l_cache s chi N =
     (case l_cache (cache_key s chi N) of
        Some v \<Rightarrow> (Inr v, l_cache)
      | None \<Rightarrow>
          (case compute_value ext s chi N of
             Inl e \<Rightarrow> (Inl e, l_cache)
           | Inr result \<Rightarrow> (Inr result, l_cache(cache_key s chi N \<mapsto> result))))"

text \<open>
  The principal character modulo 1 with attached prime 5, as
  \<open>DirichletCharacter(1, 5)\<close> builds it, and the characters modulo 7 with values
  1 and 5 on the generator 3, as \<open>DirichletCharacter(7, 5, {1})\<close> and
  \<open>DirichletCharacter(7, 5, {5})\<close> build them.
\<close>

definition chi_principal_1 :: DirichletCharacter where
  "chi_principal_1 = \<lparr>conductor = 1, modulus = 1, chi_prime = 5, generators = [],
     generator_orders = [], character_values = []\<rparr>"

definition chi7_1 :: DirichletCharacter where
  "chi7_1 = \<lparr>conductor = 7, modulus = 7, chi_prime = 5, generators = [3],
     generator_orders = [6], character_values = [1]\<rparr>"

definition chi7_5 :: DirichletCharacter where
  "chi7_5 = \<lparr>conductor = 7, modulus = 7, chi_prime = 5, generators = [3],
     generator_orders = [6], character_values = [5]\<rparr>"

section \<open>The p-adic logarithm (padic_log.h)\<close>

text \<open>
  The class invariant of a \<open>Qp\<close>: the zero element, of valuation \<open>+\<infinity>\<close>, or a
  finite valuation with a unit in \<open>(0, p^N)\<close> that \<open>p\<close> does not divide.
\<close>

definition Qp_inv :: "Qp \<Rightarrow> bool" where
  "Qp_inv x \<longleftrightarrow>
     2 \<le> qp_prime x \<and> 1 \<le> qp_precision x \<and>
     (case qp_valuation x of
        PosInf \<Rightarrow> qp_unit x = 0
      | Val v \<Rightarrow> 0 < qp_unit x \<and> qp_unit x < qp_prime x ^ nat (qp_precision x) \<and>
                 \<not> qp_prime x dvd qp_unit x)"

text \<open>\<open>check_convergence_condition\<close>\<close>

definition check_convergence_condition :: "Qp \<Rightarrow> error + bool" where
  "check_convergence_condition x =
     (if Qp_is_zero x then Inr False
      else
        ebind (Qp_new (qp_prime x) (qp_precision x) 1) (\<lambda>one.
        ebind (Qp_sub x one) (\<lambda>diff.
          Inr (if qp_prime x = 2 then val_ge (qp_valuation diff) 2
               else val_ge (qp_valuation diff) 1))))"

text \<open>
  \<open>compute_required_terms\<close>. The valuation of \<open>u = 0\<close> is \<open>+\<infinity>\<close>: it is not
  \<open><= 0\<close>, and the quotient \<open>precision / u_valuation\<close> is 0.
\<close>

definition compute_required_terms :: "int \<Rightarrow> valuation \<Rightarrow> int" where
  "compute_required_terms precision u_valuation =
     (case u_valuation of
        Val v \<Rightarrow>
          if v \<le> 0 then precision * 2
          else min (ldiv precision v + 10) (precision * 3)
      | PosInf \<Rightarrow> min (0 + 10) (precision * 3))"

text \<open>
  The loop \<open>for (n = p; n <= N * 2; n *= p) p_divides_count++\<close>; it does not exit
  for \<open>p = 1\<close>.
\<close>

partial_function (option) count_p_divides :: "int \<Rightarrow> int \<Rightarrow> int \<Rightarrow> int \<Rightarrow> int option" where
  "count_p_divides n p N cnt =
     (if n \<le> N * 2 then count_p_divides (n * p) p N (cnt + 1) else Some cnt)"

declare count_p_divides.simps [code]

text \<open>
  One round of the series loop at index \<open>n\<close>, from \<open>(result, u_power)\<close>: the
  flag says whether the loop goes on; a \<open>break\<close> leaves with the result so far.
\<close>

definition log_step ::
  "int \<Rightarrow> int \<Rightarrow> int \<Rightarrow> Qp \<Rightarrow> Qp \<Rightarrow> Qp \<Rightarrow> error + (bool \<times> Qp \<times> Qp)" where
  "log_step n p wp u result u_power =
     ebind (Qp_new p wp n) (\<lambda>divisor.
     ebind (Qp_div u_power divisor) (\<lambda>term.
       if val_ge (qp_valuation term) wp then Inr (False, result, u_power)
       else
         ebind (if lmod n 2 = 1 then Qp_add result term else Qp_sub result term)
           (\<lambda>result1.
         ebind (Qp_mul u_power u) (\<lambda>u_power1.
           Inr (\<not> val_ge (qp_valuation u_power1) wp, result1, u_power1)))))"

function log_series ::
  "int \<Rightarrow> int \<Rightarrow> int \<Rightarrow> int \<Rightarrow> Qp \<Rightarrow> Qp \<Rightarrow> Qp \<Rightarrow> error + Qp" where
  "log_series n terms p wp u result u_power =
     (if n \<le> terms then
        (case log_step n p wp u result u_power of
           Inl e \<Rightarrow> Inl e
         | Inr (go_on, result1, u_power1) \<Rightarrow>
             if go_on then log_series (n + 1) terms p wp u result1 u_power1
             else Inr result1)
      else Inr result)"
  by pat_completeness auto
termination
  by (relation "measure (\<lambda>(n, terms, p, wp, u, result, u_power). nat (terms + 1 - n))") auto

declare log_series.simps [simp del]

text \<open>\<open>PadicLog::log\<close> after the working precision has been found.\<close>

definition log_at_precision :: "Qp \<Rightarrow> int \<Rightarrow> error + Qp" where
  "log_at_precision x wp =
     ebind (Qp_new (qp_prime x) wp 1) (\<lambda>one.
     ebind (Qp_with_precision x wp) (\<lambda>xw.
     ebind (Qp_sub xw one) (\<lambda>u.
     ebind (check_convergence_condition x) (\<lambda>converges.
       if \<not> converges then Inl DomainError
       else
         (let terms = compute_required_terms wp (qp_valuation u)
          in if terms < 1 then Qp_new (qp_prime x) (qp_precision x) 0
             else
               ebind (Qp_mul u u) (\<lambda>u_power.
               ebind (log_series 2 terms (qp_prime x) wp u u u_power) (\<lambda>result.
                 Qp_with_precision result (qp_precision x))))))))"

text \<open>\<open>PadicLog::log\<close>\<close>

definition PadicLog_log :: "Qp \<Rightarrow> (error + Qp) option" where
  "PadicLog_log x =
     (if Qp_is_zero x then Some (Inl DomainError)
      else if qp_valuation x \<noteq> Val 0 then Some (Inl DomainError)
      else
        Option.bind (count_p_divides (qp_prime x) (qp_prime x) (qp_precision x) 0)
          (\<lambda>p_divides_count.
             Some (log_at_precision x (qp_precision x + p_divides_count + 5))))"

text \<open>
  The domain of the claim on the representation: \<open>x\<close> is congruent to 1 modulo
  \<open>p\<close>, and modulo 4 when \<open>p = 2\<close>.
\<close>

definition congruent_one :: "Qp \<Rightarrow> bool" where
  "congruent_one x \<longleftrightarrow>
     (if qp_prime x = 2 then qp_unit x mod 4 = 1 else qp_unit x mod qp_prime x = 1)"

text \<open>
  The domain of the logarithm: not zero, of valuation 0, congruent to 1.
\<close>

definition in_log_domain :: "Qp \<Rightarrow> bool" where
  "in_log_domain x \<longleftrightarrow> \<not> Qp_is_zero x \<and> qp_valuation x = Val 0 \<and> congruent_one x"

text \<open>
  A \<open>Qp\<close> with the prime \<open>p\<close> and precision \<open>N\<close> whose unit is 0 or coprime to
  \<open>p\<close>: what every operation of the series loop returns.
\<close>

definition qp_good :: "int \<Rightarrow> int \<Rightarrow> Qp \<Rightarrow> bool" where
  "qp_good p N y \<longleftrightarrow>
     qp_prime y = p \<and> qp_precision y = N \<and> (qp_unit y = 0 \<or> coprime (qp_unit y) p)"

text \<open>
  The elements \<open>4\<close> of \<open>Q\<^sub>3\<close> at precision 3 and \<open>1\<close> of \<open>Q\<^sub>2\<close> at precision 1.
\<close>

definition three_adic_four :: Qp where
  "three_adic_four = \<lparr>qp_prime = 3, qp_precision = 3, qp_valuation = Val 0, qp_unit = 4\<rparr>"

definition two_adic_one :: Qp where
  "two_adic_one = \<lparr>qp_prime = 2, qp_precision = 1, qp_valuation = Val 0, qp_unit = 1\<rparr>"

subsection \<open>Values and agreement to a precision\<close>

text \<open>
  The p-adic integer that a \<open>Qp\<close> of non-negative valuation stands for:
  \<open>unit * p ^ valuation\<close>, and 0 for the zero element.
\<close>

definition qp_value :: "Qp \<Rightarrow> int" where
  "qp_value x =
     (case qp_valuation x of
        Val v \<Rightarrow> qp_unit x * qp_prime x ^ nat v
      | PosInf \<Rightarrow> 0)"

text \<open>
  A \<open>Qp\<close> with the prime \<open>p\<close> and the precision \<open>N\<close> that lies in \<open>Z\<^sub>p\<close>.
\<close>

definition qp_int :: "int \<Rightarrow> int \<Rightarrow> Qp \<Rightarrow> bool" where
  "qp_int p N x \<longleftrightarrow>
     qp_prime x = p \<and> qp_precision x = N \<and> val_ge (qp_valuation x) 0"

text \<open>
  The record that \<open>u_power\<close> holds in the loop of \<open>log\<close> when it stands for
  \<open>u\<^sup>n\<close>, where \<open>u\<close> has valuation \<open>vu\<close> and unit \<open>uu\<close> at the working precision
  \<open>wp\<close>.
\<close>

definition u_power_at :: "int \<Rightarrow> int \<Rightarrow> int \<Rightarrow> int \<Rightarrow> nat \<Rightarrow> Qp" where
  "u_power_at p wp vu uu n =
     \<lparr>qp_prime = p, qp_precision = wp, qp_valuation = Val (int n * vu),
      qp_unit = uu ^ n mod p ^ nat wp\<rparr>"

text \<open>
  The first \<open>m\<close> terms after the constant one of the binomial expansion of
  \<open>(1 + U) ^ (p ^ K)\<close>.
\<close>

definition binomial_sum :: "int \<Rightarrow> nat \<Rightarrow> int \<Rightarrow> nat \<Rightarrow> int" where
  "binomial_sum p K U m = (\<Sum>j = 1..m. int (nat p ^ K choose j) * U ^ j)"

text \<open>
  Two \<open>Qp\<close> values are equal to the precision \<open>N\<close> they carry when their
  difference, as \<open>operator-\<close> computes it, has valuation at least \<open>N\<close>: the two
  values are congruent modulo \<open>p\<^sup>N\<close>.
\<close>

definition equal_to_precision :: "Qp \<Rightarrow> Qp \<Rightarrow> bool" where
  "equal_to_precision a b \<longleftrightarrow>
     (case Qp_sub a b of
        Inl e \<Rightarrow> False
      | Inr d \<Rightarrow> val_ge (qp_valuation d) (min (qp_precision a) (qp_precision b)))"

text \<open>The element \<open>10\<close> of \<open>Q\<^sub>3\<close> at precision 3.\<close>

definition three_adic_ten :: Qp where
  "three_adic_ten = \<lparr>qp_prime = 3, qp_precision = 3, qp_valuation = Val 0, qp_unit = 10\<rparr>"

section \<open>Facts about the bignum operations\<close>

lemma bmod_nonneg: "0 \<le> a \<Longrightarrow> 0 < b \<Longrightarrow> bmod a b = a mod b"
  by (cases "a = 0") (simp_all add: bmod_def)

lemma bmod_abs_less: "0 < b \<Longrightarrow> \<bar>bmod a b\<bar> < b"
  by (simp add: bmod_def abs_mult abs_sgn_eq)

lemma bmod_cong: "0 < b \<Longrightarrow> (bmod a b) mod b = a mod b"
proof (cases "0 \<le> a")
  case True
  assume "0 < b"
  with True show ?thesis by (simp add: bmod_nonneg)
next
  case False
  assume b: "0 < b"
  from False have "bmod a b = - ((- a) mod b)"
    using b by (simp add: bmod_def)
  then show ?thesis
    by (metis mod_minus_eq minus_minus)
qed

lemma normalize_value_eq:
  assumes "0 < p" shows "normalize_value p N v = v mod (p ^ nat N)"
proof -
  let ?m = "p ^ nat N"
  have m: "0 < ?m" using assms by simp
  have c: "(bmod v ?m) mod ?m = v mod ?m" using m by (rule bmod_cong)
  have a: "\<bar>bmod v ?m\<bar> < ?m" using m by (rule bmod_abs_less)
  show ?thesis
  proof (cases "bmod v ?m < 0")
    case True
    then have "0 \<le> bmod v ?m + ?m" "bmod v ?m + ?m < ?m" using a by linarith+
    then have "(bmod v ?m + ?m) mod ?m = bmod v ?m + ?m" by (rule mod_pos_pos_trivial)
    moreover have "(bmod v ?m + ?m) mod ?m = bmod v ?m mod ?m" by simp
    ultimately have "bmod v ?m + ?m = v mod ?m" using c by simp
    with True show ?thesis by (simp add: normalize_value_def bpow_def Let_def)
  next
    case False
    then have "0 \<le> bmod v ?m" "bmod v ?m < ?m" using a by linarith+
    then have "bmod v ?m mod ?m = bmod v ?m" by (rule mod_pos_pos_trivial)
    then have "bmod v ?m = v mod ?m" using c by simp
    with False show ?thesis by (simp add: normalize_value_def bpow_def Let_def)
  qed
qed

lemma Zp_new_ok:
  assumes "2 \<le> p" "1 \<le> N"
  shows "Zp_new p N v = Inr \<lparr>zp_prime = p, zp_precision = N, zp_value = v mod (p ^ nat N)\<rparr>"
  using assms by (simp add: Zp_new_def normalize_value_eq)

lemma xgcd_bezout: "xgcd a b = (g, s, t) \<Longrightarrow> g = s * a + t * b"
proof (induction a b arbitrary: g s t rule: xgcd.induct)
  case (1 a b)
  show ?case
  proof (cases "b = 0")
    case True
    with "1.prems" show ?thesis by (simp add: xgcd.simps)
  next
    case False
    obtain g' s' t' where r: "xgcd b (a mod b) = (g', s', t')"
      by (cases "xgcd b (a mod b)") auto
    from "1.IH" [OF False r] have g': "g' = s' * b + t' * (a mod b)" .
    from "1.prems" False r have e: "g = g'" "s = t'" "t = s' - (a div b) * t'"
      by (auto simp add: xgcd.simps [of a b])
    have "t' * a = t' * ((a div b) * b + a mod b)" by simp
    also have "\<dots> = (a div b) * t' * b + t' * (a mod b)"
      by (simp only: distrib_left mult.assoc mult.left_commute)
    finally have "g' = t' * a + (s' - (a div b) * t') * b"
      unfolding g' by (simp add: left_diff_distrib)
    then show ?thesis by (simp only: e)
  qed
qed

lemma xgcd_fst_nonneg: "0 \<le> a \<Longrightarrow> 0 \<le> b \<Longrightarrow> fst (xgcd a b) = gcd a b"
proof (induction a b rule: xgcd.induct)
  case (1 a b)
  show ?case
  proof (cases "b = 0")
    case True
    with "1.prems" show ?thesis by (simp add: xgcd.simps)
  next
    case False
    with "1.prems" have b: "0 < b" by simp
    then have m: "0 \<le> a mod b" by simp
    from "1.IH" [OF False "1.prems"(2) m] have "fst (xgcd b (a mod b)) = gcd b (a mod b)" .
    moreover have "fst (xgcd a b) = fst (xgcd b (a mod b))"
      using False by (simp add: xgcd.simps [of a b] split: prod.splits)
    moreover have "gcd b (a mod b) = gcd a b"
      by (metis gcd.commute gcd_red_int)
    ultimately show ?thesis by simp
  qed
qed

lemma xgcd_fst_pos_modulus: assumes "0 < m" shows "fst (xgcd a m) = gcd a m"
proof -
  have "fst (xgcd a m) = fst (xgcd m (a mod m))"
    using assms by (simp add: xgcd.simps [of a m] split: prod.splits)
  also have "\<dots> = gcd m (a mod m)"
    using assms by (intro xgcd_fst_nonneg) simp_all
  also have "\<dots> = gcd a m" by (metis gcd.commute gcd_red_int)
  finally show ?thesis .
qed

lemma mod_inverse_coprime:
  assumes "0 < m" "coprime a m"
  obtains x where "mod_inverse a m = Inr x" "0 \<le> x" "x < m" "(a * x) mod m = 1 mod m"
proof -
  obtain g s t where r: "xgcd a m = (g, s, t)" by (cases "xgcd a m") auto
  have "g = gcd a m" using xgcd_fst_pos_modulus [OF assms(1), of a] r by simp
  then have g: "g = 1" using assms(2) by simp
  from xgcd_bezout [OF r] g have "s * a + t * m = 1" by simp
  then have "(s * a + t * m) mod m = 1 mod m" by simp
  then have "(s * a) mod m = 1 mod m" by simp
  then have "(a * (s mod m)) mod m = 1 mod m"
    by (simp add: mod_mult_right_eq mult.commute)
  moreover have "mod_inverse a m = Inr (s mod m)" using r g by (simp add: mod_inverse_def)
  moreover have "0 \<le> s mod m" "s mod m < m" using assms(1) by simp_all
  ultimately show thesis using that by blast
qed

lemma mod_inverse_not_coprime:
  assumes "0 < m" "\<not> coprime a m"
  shows "mod_inverse a m = Inl DomainError"
proof -
  obtain g s t where r: "xgcd a m = (g, s, t)" by (cases "xgcd a m") auto
  have "g = gcd a m" using xgcd_fst_pos_modulus [OF assms(1), of a] r by simp
  then have "g \<noteq> 1" using assms(2) by (simp add: coprime_iff_gcd_eq_1)
  then show ?thesis using r by (simp add: mod_inverse_def)
qed

lemma mod_inverse_Inr:
  assumes "0 < m" "mod_inverse a m = Inr x"
  shows "(a * x) mod m = 1 mod m" "0 \<le> x" "x < m"
proof -
  have c: "coprime a m"
    using mod_inverse_not_coprime [OF assms(1), of a] assms(2) by auto
  from mod_inverse_coprime [OF assms(1) c] obtain y where
    "mod_inverse a m = Inr y" "0 \<le> y" "y < m" "(a * y) mod m = 1 mod m" by blast
  with assms(2) show "(a * x) mod m = 1 mod m" "0 \<le> x" "x < m" by simp_all
qed


lemma Zp_new_bmod:
  assumes "2 \<le> p" "1 \<le> N"
  shows "Zp_new p N (bmod v (p ^ nat N)) =
         Inr \<lparr>zp_prime = p, zp_precision = N, zp_value = v mod (p ^ nat N)\<rparr>"
proof -
  have "0 < p ^ nat N" using assms by simp
  then show ?thesis by (simp add: Zp_new_ok [OF assms] bmod_cong)
qed

lemma Zp_new_bmod_adjust:
  assumes "2 \<le> p" "1 \<le> N"
  shows "Zp_new p N (if bmod v (p ^ nat N) < 0 then bmod v (p ^ nat N) + p ^ nat N
                     else bmod v (p ^ nat N)) =
         Inr \<lparr>zp_prime = p, zp_precision = N, zp_value = v mod (p ^ nat N)\<rparr>"
proof -
  have "0 < p ^ nat N" using assms by simp
  then show ?thesis by (simp add: Zp_new_ok [OF assms] bmod_cong)
qed

lemma Zp_inv_min_prec:
  assumes "Zp_inv x" "Zp_inv y"
  shows "2 \<le> zp_prime x" "1 \<le> min (zp_precision x) (zp_precision y)"
  using assms by (simp_all add: Zp_inv_def)

lemma Zp_add_value:
  assumes "Zp_inv x" "Zp_inv y" "zp_prime x = zp_prime y"
  shows "Zp_add x y =
         Inr \<lparr>zp_prime = zp_prime x,
              zp_precision = min (zp_precision x) (zp_precision y),
              zp_value = (zp_value x + zp_value y)
                 mod (zp_prime x ^ nat (min (zp_precision x) (zp_precision y)))\<rparr>"
proof -
  have "Zp_add x y = Zp_new (zp_prime x) (min (zp_precision x) (zp_precision y))
          (bmod (zp_value x + zp_value y)
             (zp_prime x ^ nat (min (zp_precision x) (zp_precision y))))"
    using assms(3) by (simp add: Zp_add_def Let_def bpow_def)
  then show ?thesis
    by (simp only: Zp_new_bmod [OF Zp_inv_min_prec [OF assms(1,2)]])
qed

lemma Zp_sub_value:
  assumes "Zp_inv x" "Zp_inv y" "zp_prime x = zp_prime y"
  shows "Zp_sub x y =
         Inr \<lparr>zp_prime = zp_prime x,
              zp_precision = min (zp_precision x) (zp_precision y),
              zp_value = (zp_value x - zp_value y)
                 mod (zp_prime x ^ nat (min (zp_precision x) (zp_precision y)))\<rparr>"
proof -
  let ?m = "zp_prime x ^ nat (min (zp_precision x) (zp_precision y))"
  let ?d = "bmod (zp_value x - zp_value y) ?m"
  have "Zp_sub x y = Zp_new (zp_prime x) (min (zp_precision x) (zp_precision y))
          (if ?d < 0 then ?d + ?m else ?d)"
    using assms(3) by (simp add: Zp_sub_def Let_def bpow_def)
  then show ?thesis
    by (simp only: Zp_new_bmod_adjust [OF Zp_inv_min_prec [OF assms(1,2)]])
qed

lemma Zp_mul_value:
  assumes "Zp_inv x" "Zp_inv y" "zp_prime x = zp_prime y"
  shows "Zp_mul x y =
         Inr \<lparr>zp_prime = zp_prime x,
              zp_precision = min (zp_precision x) (zp_precision y),
              zp_value = (zp_value x * zp_value y)
                 mod (zp_prime x ^ nat (min (zp_precision x) (zp_precision y)))\<rparr>"
proof -
  have "Zp_mul x y = Zp_new (zp_prime x) (min (zp_precision x) (zp_precision y))
          (bmod (zp_value x * zp_value y)
             (zp_prime x ^ nat (min (zp_precision x) (zp_precision y))))"
    using assms(3) by (simp add: Zp_mul_def Let_def bpow_def)
  then show ?thesis
    by (simp only: Zp_new_bmod [OF Zp_inv_min_prec [OF assms(1,2)]])
qed

section \<open>Facts about the square root\<close>

lemma bmod_dvd_diff: assumes "0 < b" shows "b dvd (bmod a b - a)"
proof -
  have "bmod a b mod b = a mod b" using assms by (rule bmod_cong)
  then show ?thesis by (simp add: mod_eq_dvd_iff)
qed

lemma bmod_zero_iff: assumes "0 < b" shows "bmod a b = 0 \<longleftrightarrow> b dvd a"
proof
  assume "bmod a b = 0"
  then show "b dvd a" using bmod_dvd_diff [OF assms, of a] by simp
next
  assume "b dvd a"
  then have "b dvd (bmod a b - a) + a" using bmod_dvd_diff [OF assms, of a]
    by (intro dvd_add)
  then have "b dvd bmod a b" by simp
  moreover have "\<bar>bmod a b\<bar> < b" using assms by (rule bmod_abs_less)
  ultimately show "bmod a b = 0"
    by (metis abs_0_eq dvd_abs_iff zdvd_not_zless abs_ge_zero not_less order_le_less)
qed

lemma bquot_exact: assumes "0 < b" "b dvd a" shows "bquot a b * b = a"
proof -
  from assms(2) obtain c where c: "a = b * c" by (auto simp: dvd_def)
  have "\<bar>a\<bar> div \<bar>b\<bar> = \<bar>c\<bar>" using assms(1) c by (simp add: abs_mult)
  then have "bquot a b = sgn a * \<bar>c\<bar>" using assms(1) by (simp add: bquot_def)
  also have "sgn a = sgn c" using assms(1) c by (simp add: sgn_mult)
  also have "sgn c * \<bar>c\<bar> = c" by (simp add: mult_sgn_abs)
  finally show ?thesis using c by simp
qed

lemma hensel_step:
  fixes p :: int
  assumes p: "2 \<le> p" and k: "1 \<le> k"
    and inv: "p ^ k dvd root * root - v"
    and f: "f = bmod (root * root - v) (p ^ k * p)"
    and iv: "p dvd 2 * root * dinv - 1"
    and r2: "p ^ k * p dvd root2 - (root - bquot f (p ^ k) * dinv * p ^ k)"
  shows "p ^ k * p dvd root2 * root2 - v"
proof -
  let ?pk = "p ^ k" and ?pk1 = "p ^ k * p"
  have pk0: "0 < ?pk" and pk10: "0 < ?pk1" using p by simp_all
  have fd: "?pk1 dvd f - (root * root - v)" unfolding f using pk10 by (rule bmod_dvd_diff)
  have "?pk dvd ?pk1" by simp
  then have "?pk dvd f - (root * root - v)" using fd by (rule dvd_trans)
  then have pkf: "?pk dvd f" using inv by (metis dvd_diffD1 dvd_diff_commute dvd_add_right_iff diff_add_cancel)
  define c where "c = bquot f ?pk"
  have fc: "f = c * ?pk" unfolding c_def using bquot_exact [OF pk0 pkf] by simp
  from iv obtain t where t: "2 * root * dinv = 1 + p * t"
    by (metis dvd_def add.commute diff_eq_eq)
  from r2 obtain w where w: "root2 = root - c * dinv * ?pk + ?pk1 * w"
    unfolding c_def by (metis dvd_def diff_eq_eq add.commute)
  from fd obtain y where y: "f = root * root - v + ?pk1 * y"
    by (metis dvd_def diff_eq_eq add.commute)
  have sq: "?pk * ?pk = ?pk1 * p ^ (k - 1)"
  proof -
    have "?pk = p * p ^ (k - 1)" using k by (cases k) simp_all
    then have "?pk * ?pk = ?pk * (p * p ^ (k - 1))" by simp
    then show ?thesis by (simp add: mult.assoc)
  qed
  have "root2 * root2 - v =
      root * root - v - (2 * root * dinv) * (c * ?pk) + c * dinv * c * dinv * (?pk * ?pk)
      + ?pk1 * (w * (2 * (root - c * dinv * ?pk) + ?pk1 * w))"
    unfolding w by (simp add: algebra_simps)
  also have "(2 * root * dinv) * (c * ?pk) = f + t * c * ?pk1"
    unfolding t fc by (simp add: algebra_simps)
  also have "root * root - v - (f + t * c * ?pk1) = - ?pk1 * y - t * c * ?pk1"
    using y by simp
  finally have "root2 * root2 - v =
      ?pk1 * (- y - t * c + c * dinv * c * dinv * p ^ (k - 1)
              + w * (2 * (root - c * dinv * ?pk) + ?pk1 * w))"
    unfolding sq by (simp add: algebra_simps)
  then show ?thesis by (metis dvd_triv_left)
qed

lemma hensel_lift_square:
  "hensel_lift k N p v root = Inr r \<Longrightarrow> 1 \<le> k \<Longrightarrow> k \<le> N \<Longrightarrow>
   p ^ nat k dvd root * root - v \<Longrightarrow> 2 \<le> p \<Longrightarrow> p ^ nat N dvd r * r - v"
proof (induction k N p v root rule: hensel_lift.induct)
  case (1 k N p v root)
  note p = "1.prems"(5)
  show ?case
  proof (cases "k < N")
    case False
    with "1.prems" have "k = N" "r = root" by (simp_all add: hensel_lift.simps [of k])
    with "1.prems" show ?thesis by simp
  next
    case True
    let ?pk = "bpow p k" and ?f = "bmod (root * root - v) (bpow p k * p)"
    have pk: "?pk = p ^ nat k" by (simp add: bpow_def)
    have pk1: "p ^ nat (k + 1) = p ^ nat k * p" using "1.prems"(2) by (simp add: nat_add_distrib)
    have pk10: "0 < p ^ nat k * p" using p by simp
    show ?thesis
    proof (cases "?f = 0")
      case T: True
      then have d: "p ^ nat k * p dvd root * root - v"
        using pk10 by (simp add: pk bmod_zero_iff)
      have e: "hensel_lift k N p v root = hensel_lift (k + 1) N p v root"
        using True T by (subst hensel_lift.simps) (simp add: Let_def)
      show ?thesis
        using "1.IH"(2) [OF True refl refl refl _ _ _ _ _] T e "1.prems" True d pk1 p
        by simp
    next
      case F: False
      obtain dinv where iv: "mod_inverse (2 * root) p = Inr dinv"
        using "1.prems"(1) True F
        by (subst (asm) hensel_lift.simps) (auto simp: Let_def split: sum.splits)
      have "(2 * root * dinv) mod p = 1 mod p"
        using mod_inverse_Inr(1) [OF _ iv] p by simp
      then have ivd: "p dvd 2 * root * dinv - 1" by (simp add: mod_eq_dvd_iff)
      let ?c = "bquot ?f ?pk * dinv"
      let ?r1 = "bmod (root - ?c * ?pk) (?pk * p)"
      let ?r2 = "if ?r1 < 0 then ?r1 + ?pk * p else ?r1"
      have e: "hensel_lift k N p v root = hensel_lift (k + 1) N p v ?r2"
        using True F iv by (subst hensel_lift.simps) (simp add: Let_def)
      have "?pk * p dvd ?r1 - (root - ?c * ?pk)"
        using pk10 unfolding pk by (rule bmod_dvd_diff)
      then have r2d: "p ^ nat k * p dvd ?r2 - (root - bquot ?f (p ^ nat k) * dinv * p ^ nat k)"
        unfolding pk by (auto simp: algebra_simps)
      have k1: "1 \<le> nat k" using "1.prems"(2) by simp
      have d: "p ^ nat k * p dvd ?r2 * ?r2 - v"
        using p k1 "1.prems"(4) _ ivd r2d
        by (rule hensel_step) (simp add: pk)
      show ?thesis
        using "1.IH"(1) [OF True refl refl refl F iv refl refl refl] e "1.prems" True d pk1 p
        by simp
    qed
  qed
qed

lemma split_twos_odd:
  assumes "split_twos q0 s0 = Some y" "0 < q0"
  shows "0 < fst y \<and> bmod (fst y) 2 \<noteq> 0"
proof -
  have step: "0 < q \<longrightarrow> 0 < fst y \<and> bmod (fst y) 2 \<noteq> 0"
    if ih: "\<And>q s y. f q s = Some y \<Longrightarrow> 0 < q \<longrightarrow> 0 < fst y \<and> bmod (fst y) 2 \<noteq> 0"
      and body: "(if bmod q 2 = 0 then f (bquot q 2) (s + 1) else Some (q, s)) = Some y"
    for f :: "int \<Rightarrow> int \<Rightarrow> (int \<times> int) option" and q s y
  proof (cases "bmod q 2 = 0")
    case False
    with body show ?thesis by auto
  next
    case True
    show ?thesis
    proof
      assume q: "0 < q"
      have "2 dvd q" using True by (simp add: bmod_zero_iff)
      then have "2 \<le> q" using q by (intro zdvd_imp_le) simp_all
      then have "0 < q div 2" by simp
      moreover have "bquot q 2 = q div 2" using q by (simp add: bquot_def)
      ultimately have "0 < bquot q 2" by simp
      moreover have "f (bquot q 2) (s + 1) = Some y" using body True by simp
      ultimately show "0 < fst y \<and> bmod (fst y) 2 \<noteq> 0" using ih by blast
    qed
  qed
  have "0 < q0 \<longrightarrow> 0 < fst y \<and> bmod (fst y) 2 \<noteq> 0"
    by (rule split_twos.raw_induct
        [where P = "\<lambda>q s y. 0 < q \<longrightarrow> 0 < fst y \<and> bmod (fst y) 2 \<noteq> 0", OF step assms(1)])
  with assms(2) show ?thesis by simp
qed

lemma dvd_diff_mult_cong:
  fixes m :: int
  assumes "m dvd a - a'" "m dvd b - b'" shows "m dvd a * b - a' * b'"
proof -
  have "a * b - a' * b' = (a - a') * b + a' * (b - b')" by (simp add: algebra_simps)
  moreover have "m dvd (a - a') * b + a' * (b - b')"
    using assms by (intro dvd_add dvd_mult2 dvd_mult)
  ultimately show ?thesis by simp
qed

lemma tonelli_loop_square:
  assumes "tonelli_loop m0 c0 t0 r0 p0 = Some y0" "2 \<le> p0" "p0 dvd r0 * r0 - t0 * v"
  shows "p0 dvd y0 * y0 - v"
proof -
  let ?P = "\<lambda>(m::int) (c::int) t r p y. 2 \<le> p \<longrightarrow> p dvd r * r - t * v \<longrightarrow> p dvd y * y - v"
  have step: "?P m c t r p y"
    if ih: "\<And>m c t r p y. f m c t r p = Some y \<Longrightarrow> ?P m c t r p y"
      and body: "(if t \<noteq> 1 then
          Option.bind (order_exponent (bmod (t * t) p) 1 p)
            (\<lambda>i. let b = square_times c 0 (m - i - 1) p; c1 = bmod (b * b) p
                 in f i c1 (bmod (t * c1) p) (bmod (r * b) p) p)
        else Some r) = Some y"
    for f :: "int \<Rightarrow> int \<Rightarrow> int \<Rightarrow> int \<Rightarrow> int \<Rightarrow> int option" and m c t r p y
  proof (intro impI)
    assume p: "2 \<le> p" and inv: "p dvd r * r - t * v"
    have p0: "0 < p" using p by simp
    show "p dvd y * y - v"
    proof (cases "t = 1")
      case True
      with body inv show ?thesis by simp
    next
      case False
      from body False obtain i where
        i: "order_exponent (bmod (t * t) p) 1 p = Some i"
        by (auto simp: bind_eq_Some_conv)
      let ?b = "square_times c 0 (m - i - 1) p"
      let ?c1 = "bmod (?b * ?b) p"
      let ?t1 = "bmod (t * ?c1) p"
      let ?r1 = "bmod (r * ?b) p"
      have rec: "f i ?c1 ?t1 ?r1 p = Some y"
        using body False i by (simp add: Let_def)
      have a: "p dvd ?r1 - r * ?b" using p0 by (rule bmod_dvd_diff)
      have b: "p dvd ?c1 - ?b * ?b" using p0 by (rule bmod_dvd_diff)
      have c: "p dvd ?t1 - t * ?c1" using p0 by (rule bmod_dvd_diff)
      have d1: "p dvd ?r1 * ?r1 - (r * ?b) * (r * ?b)" using a a by (rule dvd_diff_mult_cong)
      have d2: "p dvd (r * r - t * v) * (?b * ?b)" using inv by (rule dvd_mult2)
      have "p dvd - (?c1 - ?b * ?b)" using b by (simp only: dvd_minus_iff)
      then have d3: "p dvd t * v * (- (?c1 - ?b * ?b))" by (rule dvd_mult)
      have "p dvd - (?t1 - t * ?c1)" using c by (simp only: dvd_minus_iff)
      then have d4: "p dvd (- (?t1 - t * ?c1)) * v" by (rule dvd_mult2)
      have "p dvd (?r1 * ?r1 - (r * ?b) * (r * ?b)) + (r * r - t * v) * (?b * ?b)
          + t * v * (- (?c1 - ?b * ?b)) + (- (?t1 - t * ?c1)) * v"
        using d1 d2 d3 d4 by (intro dvd_add)
      moreover have "(?r1 * ?r1 - (r * ?b) * (r * ?b)) + (r * r - t * v) * (?b * ?b)
          + t * v * (- (?c1 - ?b * ?b)) + (- (?t1 - t * ?c1)) * v = ?r1 * ?r1 - ?t1 * v"
        by (simp add: algebra_simps)
      ultimately have "p dvd ?r1 * ?r1 - ?t1 * v" by (simp only:)
      with ih [OF rec] p show ?thesis by blast
    qed
  qed
  have "?P m0 c0 t0 r0 p0 y0"
    by (rule tonelli_loop.raw_induct [where P = ?P, OF step assms(1)])
  with assms(2,3) show ?thesis by blast
qed

lemma bpow_mod_dvd_diff: "m dvd bpow_mod b e m - b ^ nat e"
proof -
  have "(b ^ nat e mod m) mod m = b ^ nat e mod m" by simp
  then show ?thesis unfolding bpow_mod_def by (simp only: mod_eq_dvd_iff)
qed

lemma initial_root_square:
  assumes "initial_root p v = Some root0" "2 \<le> p" "\<not> p dvd v"
  shows "p dvd root0 * root0 - v"
proof (cases "p = 2")
  case True
  then have "root0 = 1" using assms(1) by (simp add: initial_root_def)
  moreover have "odd v" using assms(3) True by simp
  ultimately show ?thesis using True by simp
next
  case False
  from assms(1) False obtain q s z where
    st: "split_twos (p - 1) 0 = Some (q, s)"
    and tl: "tonelli_loop s (bpow_mod z q p) (bpow_mod v q p)
              (bpow_mod v (bquot (q + 1) 2) p) p = Some root0"
    by (auto simp: initial_root_def bind_eq_Some_conv)
  have "0 < p - 1" using assms(2) by simp
  with split_twos_odd [OF st] have q: "0 < q" "bmod q 2 \<noteq> 0" by simp_all
  then have "q mod 2 \<noteq> 0" by (simp add: bmod_nonneg)
  then have qodd: "odd q" by presburger
  have h: "bquot (q + 1) 2 = (q + 1) div 2" using q(1) by (simp add: bquot_def)
  let ?e = "nat ((q + 1) div 2)"
  have "int (?e + ?e) = int (Suc (nat q))" using q(1) qodd by simp presburger
  then have ee: "?e + ?e = Suc (nat q)" by (simp only: of_nat_eq_iff)
  let ?r = "bpow_mod v (bquot (q + 1) 2) p" and ?t = "bpow_mod v q p"
  have a: "p dvd ?r - v ^ ?e" unfolding h by (rule bpow_mod_dvd_diff)
  have b: "p dvd ?t - v ^ nat q" by (rule bpow_mod_dvd_diff)
  have "p dvd ?r * ?r - v ^ ?e * v ^ ?e" using a a by (rule dvd_diff_mult_cong)
  moreover have "v ^ ?e * v ^ ?e = v ^ nat q * v"
    by (simp add: power_add [symmetric] ee)
  ultimately have e1: "p dvd ?r * ?r - v ^ nat q * v" by simp
  have "p dvd - (?t - v ^ nat q)" using b by (simp only: dvd_minus_iff)
  then have e2: "p dvd (- (?t - v ^ nat q)) * v" by (rule dvd_mult2)
  have "p dvd (?r * ?r - v ^ nat q * v) + (- (?t - v ^ nat q)) * v"
    using e1 e2 by (rule dvd_add)
  moreover have "(?r * ?r - v ^ nat q * v) + (- (?t - v ^ nat q)) * v = ?r * ?r - ?t * v"
    by (simp add: algebra_simps)
  ultimately have "p dvd ?r * ?r - ?t * v" by (simp only:)
  with tl assms(2) show ?thesis by (rule tonelli_loop_square)
qed

text \<open>
  Whenever \<open>sqrt\<close> returns a root, its square is the argument to the full
  precision: the Tonelli-Shanks loop keeps \<open>r * r = t * x (mod p)\<close> and leaves
  with \<open>t = 1\<close>, and each lifting round that finds the inverse of \<open>2 * root\<close>
  gains one digit.
\<close>

lemma Zp_sqrt_square:
  assumes "Zp_inv x" "Zp_sqrt x = Some (Inr z)"
  shows "Zp_mul z z = Inr x"
proof -
  let ?p = "zp_prime x" and ?N = "zp_precision x" and ?v = "zp_value x"
  have p: "2 \<le> ?p" and N: "1 \<le> ?N" and v: "0 \<le> ?v" "?v < ?p ^ nat ?N"
    using assms(1) by (simp_all add: Zp_inv_def bpow_def)
  have unit: "\<not> ?p dvd ?v"
    using assms(2) by (auto simp: Zp_sqrt_def is_unit_def is_divisible_by_def split: if_splits)
  have "Option.bind (initial_root ?p ?v) (\<lambda>root0.
          case hensel_lift 1 ?N ?p ?v root0 of
            Inl e \<Rightarrow> Some (Inl e)
          | Inr root \<Rightarrow> Some (Zp_new ?p ?N root)) = Some (Inr z)"
    using assms(2) by (simp add: Zp_sqrt_def split: if_splits)
  then obtain root0 where ir: "initial_root ?p ?v = Some root0"
    and cs: "(case hensel_lift 1 ?N ?p ?v root0 of
            Inl e \<Rightarrow> Some (Inl e)
          | Inr root \<Rightarrow> Some (Zp_new ?p ?N root)) = Some (Inr z)"
    by (auto simp: bind_eq_Some_conv)
  from cs obtain root where hl: "hensel_lift 1 ?N ?p ?v root0 = Inr root"
    and z: "Zp_new ?p ?N root = Inr z"
    by (cases "hensel_lift 1 ?N ?p ?v root0") auto
  have "?p dvd root0 * root0 - ?v" using ir p unit by (rule initial_root_square)
  then have "?p ^ nat 1 dvd root0 * root0 - ?v" by simp
  with hl N p have d: "?p ^ nat ?N dvd root * root - ?v"
    by (intro hensel_lift_square [of 1 ?N ?p ?v root0 root]) simp_all
  have zv: "z = \<lparr>zp_prime = ?p, zp_precision = ?N, zp_value = root mod ?p ^ nat ?N\<rparr>"
    using z Zp_new_ok [OF p N, of root] by simp
  have zi: "Zp_inv z" using p N by (simp add: zv Zp_inv_def bpow_def)
  have "(root mod ?p ^ nat ?N) * (root mod ?p ^ nat ?N) mod ?p ^ nat ?N
      = (root * root) mod ?p ^ nat ?N" by (simp add: mod_mult_eq)
  also have "\<dots> = ?v mod ?p ^ nat ?N" using d by (simp add: mod_eq_dvd_iff)
  also have "\<dots> = ?v" using v by simp
  finally have e: "(root mod ?p ^ nat ?N) * (root mod ?p ^ nat ?N) mod ?p ^ nat ?N = ?v" .
  have "Zp_mul z z = Inr \<lparr>zp_prime = ?p, zp_precision = ?N, zp_value = ?v\<rparr>"
    using Zp_mul_value [OF zi zi] e by (simp add: zv)
  then show ?thesis by simp
qed

section \<open>Facts about the character routines\<close>

lemma lmod_nonneg: "0 \<le> a \<Longrightarrow> 0 < b \<Longrightarrow> lmod a b = a mod b"
  by (rule bmod_nonneg)

lemma ldiv_nonneg: "0 \<le> a \<Longrightarrow> 0 < b \<Longrightarrow> ldiv a b = a div b"
  by (cases "a = 0") (simp_all add: bquot_def)

lemma wrap_long_id:
  assumes "- 9223372036854775808 \<le> x" "x < 9223372036854775808" shows "wrap_long x = x"
proof -
  have "(x + 9223372036854775808) mod 18446744073709551616 = x + 9223372036854775808"
    using assms by (intro mod_pos_pos_trivial) simp_all
  then show ?thesis by (simp add: wrap_long_def)
qed

lemma lmul_exact:
  assumes "0 \<le> a" "a \<le> 2147483650" "0 \<le> b" "b \<le> 2147483650"
  shows "lmul a b = a * b"
proof -
  have "a * b \<le> 2147483650 * 2147483650" using assms by (intro mult_mono) simp_all
  moreover have "0 \<le> a * b" using assms by simp
  ultimately show ?thesis by (simp add: lmul_def wrap_long_id)
qed

lemma lmul_zero [simp]: "lmul a 0 = 0" "lmul 0 a = 0"
  by (simp_all add: lmul_def wrap_long_def)

lemma square_bound:
  fixes d :: int
  assumes "0 \<le> d" "d * d \<le> 2 ^ 62" shows "d \<le> 2147483648"
proof (rule ccontr)
  assume "\<not> d \<le> 2147483648"
  then have "2147483649 \<le> d" by simp
  then have "2147483649 * 2147483649 \<le> d * d" by (intro mult_mono) simp_all
  with assms(2) show False by simp
qed

lemma pk_loop_exact:
  assumes "1 \<le> p" shows "p ^ i \<le> 2 ^ 62 \<Longrightarrow> pk_loop p i = p ^ i"
proof (induction i)
  case 0
  show ?case by simp
next
  case (Suc i)
  have "p ^ i * 1 \<le> p ^ i * p" using assms by (intro mult_left_mono) simp_all
  then have le: "p ^ i \<le> p ^ Suc i" by (simp add: mult.commute)
  with Suc.prems have "p ^ i \<le> 2 ^ 62" by linarith
  then have ih: "pk_loop p i = p ^ i" by (rule Suc.IH)
  have "0 \<le> p ^ i * p" using assms by simp
  moreover have "p ^ i * p < 9223372036854775808" using Suc.prems by (simp add: mult.commute)
  ultimately have "wrap_long (p ^ i * p) = p ^ i * p" by (intro wrap_long_id) simp_all
  then show ?case by (simp add: ih lmul_def mult.commute)
qed

lemma bmod_zero_left [simp]: "lmod 0 m = 0"
  by (simp add: bmod_def bquot_def)

lemma pow_mod_loop_zero: "pow_mod_loop 0 0 e m = 0"
proof (induction "nat e" arbitrary: e rule: less_induct)
  case less
  show ?case
  proof (cases "e > 0")
    case False
    then show ?thesis by (subst pow_mod_loop.simps) simp
  next
    case True
    then have d: "ldiv e 2 = e div 2" by (simp add: ldiv_nonneg)
    have "nat (e div 2) < nat e" using True by simp
    then have "pow_mod_loop 0 0 (e div 2) m = 0" by (rule less.hyps)
    then show ?thesis using True d by (subst pow_mod_loop.simps) simp
  qed
qed

lemma pow_mod_loop_zero_base: "1 \<le> e \<Longrightarrow> pow_mod_loop r 0 e m = 0"
proof (induction "nat e" arbitrary: e rule: less_induct)
  case less
  have e: "0 < e" using less.prems by simp
  have d: "ldiv e 2 = e div 2" using e by (simp add: ldiv_nonneg)
  have md: "lmod e 2 = e mod 2" using e by (simp add: lmod_nonneg)
  show ?case
  proof (cases "e mod 2 = 1")
    case True
    then show ?thesis using e d md by (subst pow_mod_loop.simps) (simp add: pow_mod_loop_zero)
  next
    case False
    then have "1 \<le> e div 2" using e by presburger
    moreover have "nat (e div 2) < nat e" using e by simp
    ultimately have "pow_mod_loop r 0 (e div 2) m = 0" by (intro less.hyps) simp_all
    then show ?thesis using False e d md by (subst pow_mod_loop.simps) simp
  qed
qed

lemma find_exponent_nonneg: "0 \<le> e \<Longrightarrow> 0 \<le> find_exponent e ord g m t"
proof (induction e ord g m t rule: find_exponent.induct)
  case (1 e ord g m t)
  then show ?case by (subst find_exponent.simps) simp
qed

section \<open>Facts about the Qp operations\<close>

lemma pval_not_dvd: "\<not> p dvd n \<Longrightarrow> p_adic_valuation n p = 0"
  by (subst p_adic_valuation.simps) simp

lemma Qp_make_unit:
  assumes "0 < s" "s < p ^ nat N" "\<not> p dvd s"
  shows "Qp_make p N v s = \<lparr>qp_prime = p, qp_precision = N, qp_valuation = Val v, qp_unit = s\<rparr>"
proof -
  have "s mod p ^ nat N = s" using assms by simp
  then show ?thesis using assms by (simp add: Qp_make_def pval_not_dvd)
qed

lemma Qp_make_zero: "Qp_make p N v 0 = Qp_zero p N"
  by (simp add: Qp_make_def)

lemma Qp_of_Zp_01:
  "Qp_of_Zp \<lparr>zp_prime = 5, zp_precision = 2, zp_value = 1\<rparr>
     = \<lparr>qp_prime = 5, qp_precision = 2, qp_valuation = Val 0, qp_unit = 1\<rparr>"
  "Qp_of_Zp \<lparr>zp_prime = 5, zp_precision = 2, zp_value = 0\<rparr> = Qp_zero 5 2"
  by (simp_all add: Qp_of_Zp_def Qp_make_unit Qp_make_zero)

section \<open>Facts about the totient\<close>

lemma units_below_subset: "units_below n \<subseteq> {0 ..< n}"
  by (auto simp: units_below_def)

lemma finite_units_below: "finite (units_below n)"
  by (rule finite_subset [OF units_below_subset]) simp

lemma units_below_iff: "x \<in> units_below n \<longleftrightarrow> 0 \<le> x \<and> x < n \<and> coprime x n"
  by (auto simp: units_below_def)

lemma phi_card_upto: "phi n = int (card {k \<in> set [1 .. n]. coprime k n})"
proof -
  have d: "distinct (filter (\<lambda>k. coprime k n) [1 .. n])" by simp
  have "set (filter (\<lambda>k. coprime k n) [1 .. n]) = {k \<in> set [1 .. n]. coprime k n}"
    by (rule set_filter)
  then have "card {k \<in> set [1 .. n]. coprime k n}
      = length (filter (\<lambda>k. coprime k n) [1 .. n])"
    using distinct_card [OF d] by simp
  then show ?thesis by (simp only: phi_def)
qed

lemma phi_units_below:
  assumes "1 \<le> n" shows "phi n = int (card (units_below n))"
proof (cases "n = 1")
  case True
  have "{k \<in> set [1 .. 1::int]. coprime k 1} = {1}" by auto
  moreover have "units_below 1 = {0}" by (auto simp: units_below_iff)
  ultimately show ?thesis using True by (simp add: phi_card_upto)
next
  case False
  with assms have n: "2 \<le> n" by simp
  have c0: "\<not> coprime 0 n" and cn: "\<not> coprime n n" using n by auto
  have "{k \<in> set [1 .. n]. coprime k n} = units_below n"
  proof (rule set_eqI)
    fix k
    show "k \<in> {k \<in> set [1 .. n]. coprime k n} \<longleftrightarrow> k \<in> units_below n"
    proof (cases "coprime k n")
      case True
      then have "k \<noteq> 0" "k \<noteq> n" using c0 cn by auto
      then show ?thesis using True by (auto simp: units_below_iff)
    next
      case False
      then show ?thesis by (simp add: units_below_iff)
    qed
  qed
  then show ?thesis by (simp only: phi_card_upto)
qed

lemma small_multiple_zero:
  fixes m d :: int
  assumes "m dvd d" "\<bar>d\<bar> < m" shows "d = 0"
proof (rule ccontr)
  assume "d \<noteq> 0"
  then have "0 < \<bar>d\<bar>" by simp
  moreover have "m dvd \<bar>d\<bar>" using assms(1) by simp
  ultimately show False using assms(2) zdvd_not_zless by blast
qed

lemma crt_inj:
  fixes a b :: int
  assumes "0 < a" "0 < b" "coprime a b"
  shows "inj_on (\<lambda>x. (x mod a, x mod b)) {0 ..< a * b}"
proof (rule inj_onI)
  fix x y :: int
  assume x: "x \<in> {0 ..< a * b}" and y: "y \<in> {0 ..< a * b}"
    and e: "(x mod a, x mod b) = (y mod a, y mod b)"
  from e have "a dvd x - y" "b dvd x - y" by (simp_all add: mod_eq_dvd_iff)
  then have d: "a * b dvd x - y" using assms(3) by (rule divides_mult)
  have "\<bar>x - y\<bar> < a * b" using x y by auto
  with d have "x - y = 0" by (rule small_multiple_zero)
  then show "x = y" by simp
qed

lemma crt_image:
  fixes a b :: int
  assumes "0 < a" "0 < b" "coprime a b"
  shows "(\<lambda>x. (x mod a, x mod b)) ` {0 ..< a * b} = {0 ..< a} \<times> {0 ..< b}"
proof (rule card_subset_eq)
  show "finite ({0 ..< a} \<times> {0 ..< b})" by simp
  show "(\<lambda>x. (x mod a, x mod b)) ` {0 ..< a * b} \<subseteq> {0 ..< a} \<times> {0 ..< b}"
    using assms by auto
  have "card ((\<lambda>x. (x mod a, x mod b)) ` {0 ..< a * b}) = card {0 ..< a * b}"
    using crt_inj [OF assms] by (rule card_image)
  also have "\<dots> = nat (a * b)" by simp
  also have "\<dots> = card ({0 ..< a} \<times> {0 ..< b})"
    using assms by (simp add: card_cartesian_product nat_mult_distrib)
  finally show "card ((\<lambda>x. (x mod a, x mod b)) ` {0 ..< a * b}) = card ({0 ..< a} \<times> {0 ..< b})" .
qed

lemma units_below_mult:
  fixes a b :: int
  assumes "0 < a" "0 < b" "coprime a b"
  shows "card (units_below (a * b)) = card (units_below a) * card (units_below b)"
proof -
  let ?f = "\<lambda>x. (x mod a, x mod b)"
  have cop: "coprime x (a * b) \<longleftrightarrow> coprime (x mod a) a \<and> coprime (x mod b) b" for x
    using assms by (simp add: coprime_mod_left_iff)
  have img: "?f ` units_below (a * b) = units_below a \<times> units_below b"
  proof (rule set_eqI, rule iffI)
    fix z assume "z \<in> ?f ` units_below (a * b)"
    then obtain x where x: "x \<in> units_below (a * b)" "z = ?f x" by blast
    then show "z \<in> units_below a \<times> units_below b"
      using assms cop [of x] by (simp add: units_below_iff)
  next
    fix z assume z: "z \<in> units_below a \<times> units_below b"
    then have "z \<in> {0 ..< a} \<times> {0 ..< b}" using units_below_subset by blast
    then have "z \<in> ?f ` {0 ..< a * b}" using crt_image [OF assms] by simp
    then obtain x where x: "x \<in> {0 ..< a * b}" "z = ?f x" by blast
    with z have "coprime (x mod a) a" "coprime (x mod b) b" by (simp_all add: units_below_iff)
    then have "coprime x (a * b)" using cop by simp
    with x(1) have "x \<in> units_below (a * b)" by (simp add: units_below_iff)
    with x(2) show "z \<in> ?f ` units_below (a * b)" by blast
  qed
  have "inj_on ?f (units_below (a * b))"
    using crt_inj [OF assms] units_below_subset by (rule inj_on_subset)
  then have "card (?f ` units_below (a * b)) = card (units_below (a * b))"
    by (rule card_image)
  then show ?thesis by (simp add: img card_cartesian_product)
qed

lemma phi_mult:
  assumes "1 \<le> a" "1 \<le> b" "coprime a b"
  shows "phi (a * b) = phi a * phi b"
proof -
  have "1 * 1 \<le> a * b" using assms(1,2) by (intro mult_mono) simp_all
  then have ab: "1 \<le> a * b" by simp
  have "0 < a" "0 < b" using assms by simp_all
  then have "card (units_below (a * b)) = card (units_below a) * card (units_below b)"
    using assms(3) by (rule units_below_mult)
  then show ?thesis
    by (simp add: phi_units_below [OF ab] phi_units_below [OF assms(1)]
        phi_units_below [OF assms(2)])
qed

lemma prime_coprime_iff:
  assumes "is_prime p" shows "coprime x p \<longleftrightarrow> \<not> p dvd x"
proof
  assume c: "coprime x p"
  show "\<not> p dvd x"
  proof
    assume "p dvd x"
    then have "p dvd gcd x p" by simp
    then have "p dvd 1" using c by (simp add: coprime_iff_gcd_eq_1)
    then show False using assms by (simp add: is_prime_def)
  qed
next
  assume n: "\<not> p dvd x"
  have p: "2 \<le> p" using assms by (simp add: is_prime_def)
  let ?g = "gcd x p"
  have g0: "0 \<le> ?g" by simp
  have gp: "?g dvd p" by simp
  have "?g \<le> p" using gp p by (intro zdvd_imp_le) simp_all
  moreover have "?g \<noteq> p" using n by (metis gcd_dvd1)
  moreover have "?g \<noteq> 0" using p by simp
  moreover have "\<not> (2 \<le> ?g \<and> ?g < p)" using assms gp by (auto simp: is_prime_def)
  ultimately have "?g = 1" using g0 by linarith
  then show "coprime x p" by (simp add: coprime_iff_gcd_eq_1)
qed

lemma units_below_prime_power:
  assumes "is_prime p" "0 < k"
  shows "units_below (p ^ k) = {0 ..< p ^ k} - (\<lambda>y. p * y) ` {0 ..< p ^ (k - 1)}"
proof -
  have p: "2 \<le> p" using assms by (simp add: is_prime_def)
  have c: "coprime x (p ^ k) \<longleftrightarrow> \<not> p dvd x" for x
    using assms(2) prime_coprime_iff [OF assms(1)] by (simp add: coprime_power_right_iff)
  have pk: "p ^ k = p * p ^ (k - 1)" using assms(2) by (cases k) simp_all
  have m: "x \<in> (\<lambda>y. p * y) ` {0 ..< p ^ (k - 1)} \<longleftrightarrow> p dvd x" if "x \<in> {0 ..< p ^ k}" for x
  proof
    assume "x \<in> (\<lambda>y. p * y) ` {0 ..< p ^ (k - 1)}"
    then show "p dvd x" by auto
  next
    assume "p dvd x"
    then obtain y where y: "x = p * y" by (auto simp: dvd_def)
    have "0 \<le> y" using that y p by (simp add: zero_le_mult_iff)
    moreover have "y < p ^ (k - 1)" using that y p pk by simp
    ultimately show "x \<in> (\<lambda>y. p * y) ` {0 ..< p ^ (k - 1)}" using y by auto
  qed
  show ?thesis
  proof (rule set_eqI)
    fix x
    show "x \<in> units_below (p ^ k) \<longleftrightarrow>
          x \<in> {0 ..< p ^ k} - (\<lambda>y. p * y) ` {0 ..< p ^ (k - 1)}"
    proof (cases "x \<in> {0 ..< p ^ k}")
      case True
      then have "x \<in> units_below (p ^ k) \<longleftrightarrow> \<not> p dvd x"
        using c [of x] by (simp add: units_below_iff del: coprime_power_right_iff)
      with m [OF True] True show ?thesis by blast
    next
      case False
      then show ?thesis using units_below_subset by blast
    qed
  qed
qed

lemma phi_prime_power:
  assumes "is_prime p" "0 < k"
  shows "phi (p ^ k) = p ^ k - p ^ (k - 1)"
proof -
  have p: "2 \<le> p" using assms by (simp add: is_prime_def)
  have pk: "p ^ k = p * p ^ (k - 1)" using assms(2) by (cases k) simp_all
  have one: "1 \<le> p ^ k" using p by simp
  have le: "p ^ (k - 1) \<le> p ^ k" using p by (intro power_increasing) simp_all
  let ?M = "(\<lambda>y. p * y) ` {0 ..< p ^ (k - 1)}"
  have sub: "?M \<subseteq> {0 ..< p ^ k}" using p pk by auto
  have inj: "inj_on (\<lambda>y. p * y) {0 ..< p ^ (k - 1)}" using p by (auto simp: inj_on_def)
  have fin: "finite ?M" by simp
  have "card ({0 ..< p ^ k} - ?M) = card {0 ..< p ^ k} - card ?M"
    using fin sub by (rule card_Diff_subset)
  moreover have "card ?M = nat (p ^ (k - 1))" using inj by (simp add: card_image)
  ultimately have "card (units_below (p ^ k)) = nat (p ^ k) - nat (p ^ (k - 1))"
    by (simp add: units_below_prime_power [OF assms])
  moreover have "0 \<le> p ^ (k - 1)" using p by simp
  ultimately have "int (card (units_below (p ^ k))) = p ^ k - p ^ (k - 1)"
    using le by (simp add: of_nat_diff nat_le_eq_zle)
  then show ?thesis by (simp only: phi_units_below [OF one])
qed

section \<open>Facts about the generator computation\<close>

lemma lmod_zero_iff_dvd:
  assumes "0 \<le> n" "0 < p" shows "lmod n p = 0 \<longleftrightarrow> p dvd n"
  using assms by (simp add: lmod_nonneg dvd_eq_mod_eq_0)

lemma divide_out_spec:
  assumes "1 \<le> n" "2 \<le> p"
  shows "\<exists>n1 k. divide_out n p pw = Some (n1, pw + int k) \<and> n = n1 * p ^ k \<and>
           \<not> p dvd n1 \<and> 1 \<le> n1"
  using assms
proof (induction "nat n" arbitrary: n pw rule: less_induct)
  case less
  show ?case
  proof (cases "p dvd n")
    case False
    then have "lmod n p \<noteq> 0" using less.prems by (simp add: lmod_zero_iff_dvd)
    then have "divide_out n p pw = Some (n, pw + int 0)"
      by (subst divide_out.simps) simp
    then show ?thesis using False less.prems by (intro exI [of _ n] exI [of _ 0]) simp
  next
    case True
    then obtain m where m: "n = p * m" by (auto simp: dvd_def)
    have m1: "1 \<le> m"
    proof (rule ccontr)
      assume "\<not> 1 \<le> m"
      then have "m \<le> 0" by simp
      then have "p * m \<le> 0" using less.prems(2) by (intro mult_nonneg_nonpos) simp_all
      then show False using less.prems(1) m by simp
    qed
    have q: "ldiv n p = m" using less.prems m by (simp add: ldiv_nonneg)
    have "m < n"
    proof -
      have "1 * m < p * m" using less.prems(2) m1 by (intro mult_strict_right_mono) simp_all
      then show ?thesis using m by simp
    qed
    then have lt: "nat m < nat n" using m1 by simp
    from less.hyps [OF lt m1 less.prems(2), of "pw + 1"] obtain n1 k where
      r: "divide_out m p (pw + 1) = Some (n1, pw + 1 + int k)" "m = n1 * p ^ k"
        "\<not> p dvd n1" "1 \<le> n1" by blast
    have "lmod n p = 0" using True less.prems by (simp add: lmod_zero_iff_dvd)
    then have "divide_out n p pw = divide_out m p (pw + 1)"
      by (subst divide_out.simps) (simp add: q)
    then have "divide_out n p pw = Some (n1, pw + int (Suc k))" using r(1) by simp
    moreover have "n = n1 * p ^ Suc k" using m r(2) by simp
    ultimately show ?thesis using r(3,4) by blast
  qed
qed

lemma pow_mod_self:
  assumes "1 \<le> e" "2 \<le> p" shows "pow_mod p e p = 0"
proof -
  have "lmod p p = 0" using assms(2) by (simp add: lmod_nonneg)
  then show ?thesis using assms(1) by (simp add: pow_mod_def pow_mod_loop_zero_base)
qed

lemma is_primitive_from_spec:
  assumes "3 \<le> p" "p \<le> 2 ^ 62"
  shows "2 \<le> d \<Longrightarrow> d \<le> 2147483649 \<Longrightarrow>
         \<exists>b. is_primitive_from d g p = Some b \<and> (g = p \<longrightarrow> b)"
proof (induction "nat (p - d)" arbitrary: d rule: less_induct)
  case less
  have sq: "lmul d d = d * d" using less.prems by (intro lmul_exact) simp_all
  show ?case
  proof (cases "d * d \<le> p - 1")
    case False
    then show ?thesis using sq by (subst is_primitive_from.simps) auto
  next
    case True
    have dle: "d * 1 \<le> d * d" using less.prems by (intro mult_left_mono) simp_all
    with True have dp: "d \<le> p - 1" by simp
    have "d * d \<le> 2 ^ 62" using True assms(2) by simp
    then have d31: "d \<le> 2147483648" using less.prems by (intro square_bound) simp_all
    have m: "nat (p - (d + 1)) < nat (p - d)" using dp by simp
    from less.hyps [OF m] less.prems d31 obtain b where
      b: "is_primitive_from (d + 1) g p = Some b" "g = p \<longrightarrow> b" by auto
    show ?thesis
    proof (cases "lmod (p - 1) d = 0 \<and>
        (pow_mod g d p = 1 \<or> pow_mod g (ldiv (p - 1) d) p = 1)")
      case F: False
      then have "is_primitive_from d g p = is_primitive_from (d + 1) g p"
        using True sq by (subst is_primitive_from.simps) auto
      with b show ?thesis by simp
    next
      case T: True
      have "g \<noteq> p"
      proof
        assume gp: "g = p"
        have p2: "2 \<le> p" using assms(1) by simp
        have a: "pow_mod p d p = 0" using less.prems p2 by (intro pow_mod_self) simp_all
        have "0 < (p - 1) div d" using dp less.prems by (simp add: pos_imp_zdiv_pos_iff)
        then have "1 \<le> ldiv (p - 1) d" using less.prems assms(1) by (simp add: ldiv_nonneg)
        then have "pow_mod p (ldiv (p - 1) d) p = 0"
          using p2 by (intro pow_mod_self) simp_all
        with a T gp show False by simp
      qed
      moreover have "is_primitive_from d g p = Some False"
        using True sq T by (subst is_primitive_from.simps) auto
      ultimately show ?thesis by auto
    qed
  qed
qed

lemma find_generator_terminates:
  assumes "3 \<le> p" "p \<le> 2 ^ 62"
  shows "2 \<le> g \<Longrightarrow> g \<le> p \<Longrightarrow> \<exists>r. find_generator g p k = Some r"
proof (induction "nat (p - g)" arbitrary: g rule: less_induct)
  case less
  from is_primitive_from_spec [OF assms, of 2 g] obtain b where
    b: "is_primitive_from 2 g p = Some b" "g = p \<longrightarrow> b" by auto
  show ?case
  proof (cases b)
    case True
    then show ?thesis using b(1) by (subst find_generator.simps) simp
  next
    case False
    then have "g \<noteq> p" using b(2) by auto
    with less.prems have lt: "g < p" by simp
    then have "nat (p - (g + 1)) < nat (p - g)" by simp
    from less.hyps [OF this] less.prems lt obtain r where
      "find_generator (g + 1) p k = Some r" by auto
    then show ?thesis using False b(1) by (subst find_generator.simps) simp
  qed
qed

lemma is_prime_two: "is_prime 2"
  by (auto simp: is_prime_def)

lemma phi_one: "phi 1 = 1"
  by (simp add: phi_def)

lemma factors_ok_Nil: "factors_ok n [] n"
  by (simp add: factors_ok_def factor_product_def factor_totient_def phi_one)

lemma factors_ok_extend:
  assumes "factors_ok n0 fs n" "n = n1 * p ^ k" "is_prime p" "0 < k" "\<not> p dvd n1"
  shows "factors_ok n0 (fs @ [(p, int k)]) n1"
proof -
  let ?F = "factor_product fs"
  have p: "2 \<le> p" using assms(3) by (simp add: is_prime_def)
  have F: "n0 = ?F * n" "coprime ?F n" "1 \<le> ?F" "phi ?F = factor_totient fs"
    "\<forall>(p, k) \<in> set fs. is_prime p \<and> 1 \<le> k"
    using assms(1) by (simp_all add: factors_ok_def)
  have pr: "factor_product (fs @ [(p, int k)]) = ?F * p ^ k"
    by (simp add: factor_product_def)
  have tt: "factor_totient (fs @ [(p, int k)]) = factor_totient fs * (p ^ k - p ^ (k - 1))"
    using assms(4) by (simp add: factor_totient_def nat_diff_distrib)
  have c1: "coprime ?F n1" and c2: "coprime ?F (p ^ k)"
    using F(2) assms(2) by simp_all
  have "coprime n1 p" using assms(3,5) by (simp add: prime_coprime_iff)
  then have c3: "coprime (p ^ k) n1" by (simp add: coprime_commute)
  have pk1: "1 \<le> p ^ k" using p by simp
  have "phi (?F * p ^ k) = phi ?F * phi (p ^ k)"
    using F(3) pk1 c2 by (rule phi_mult)
  also have "\<dots> = factor_totient fs * (p ^ k - p ^ (k - 1))"
    using F(4) phi_prime_power [OF assms(3,4)] by simp
  finally have ph: "phi (?F * p ^ k) = factor_totient fs * (p ^ k - p ^ (k - 1))" .
  have "1 * 1 \<le> ?F * p ^ k" using F(3) pk1 by (intro mult_mono) simp_all
  then have one: "1 \<le> ?F * p ^ k" by simp
  have "n0 = ?F * p ^ k * n1" using F(1) assms(2) by (simp add: mult.assoc mult.commute)
  moreover have "coprime (?F * p ^ k) n1" using c1 c3 by simp
  moreover have "\<forall>(q, j) \<in> set (fs @ [(p, int k)]). is_prime q \<and> 1 \<le> j"
    using F(5) assms(3,4) by auto
  ultimately show ?thesis
    unfolding factors_ok_def pr tt using one ph by simp
qed

lemma least_divisor_prime:
  assumes "2 \<le> p" "p dvd n" "\<forall>d. 2 \<le> d \<and> d < p \<longrightarrow> \<not> d dvd n"
  shows "is_prime p"
  unfolding is_prime_def
proof (intro conjI allI impI)
  show "2 \<le> p" by (rule assms(1))
next
  fix d assume d: "2 \<le> d \<and> d < p"
  show "\<not> d dvd p"
  proof
    assume "d dvd p"
    then have "d dvd n" using assms(2) by (rule dvd_trans)
    with d assms(3) show False by blast
  qed
qed

lemma no_small_divisor_prime:
  assumes "2 \<le> n" "n < p * p" "0 \<le> p" "\<forall>d. 2 \<le> d \<and> d < p \<longrightarrow> \<not> d dvd n"
  shows "is_prime n"
  unfolding is_prime_def
proof (intro conjI allI impI)
  show "2 \<le> n" by (rule assms(1))
next
  fix d assume d: "2 \<le> d \<and> d < n"
  show "\<not> d dvd n"
  proof
    assume dv: "d dvd n"
    then obtain e where e: "n = d * e" by (auto simp: dvd_def)
    have e2: "2 \<le> e"
    proof (rule ccontr)
      assume "\<not> 2 \<le> e"
      then have "e \<le> 1" by simp
      then have "d * e \<le> d * 1" using d by (intro mult_left_mono) simp_all
      then have "d * e \<le> d" by simp
      moreover have "d < d * e" using d e by simp
      ultimately show False by linarith
    qed
    have "e dvd n" using e by simp
    have dp: "p \<le> d" using assms(4) d dv by (meson not_le)
    have ep: "p \<le> e" using assms(4) e2 \<open>e dvd n\<close> by (meson not_le)
    have "p * p \<le> d * e" using dp ep assms(3) by (intro mult_mono) simp_all
    then show False using assms(2) e by simp
  qed
qed

lemma odd_factors_spec:
  assumes "factors_ok n0 fs n" "1 \<le> n" "3 \<le> p" "odd p" "odd n"
    "\<forall>d. 2 \<le> d \<and> d < p \<longrightarrow> \<not> d dvd n" "n \<le> 2 ^ 62" "p \<le> 2147483650"
  shows "\<exists>n1 fs1. odd_factors p n fs = Some (n1, fs1) \<and> factors_ok n0 fs1 n1 \<and>
           (n1 = 1 \<or> is_prime n1)"
  using assms
proof (induction "nat (n + 1 - p)" arbitrary: p n fs rule: less_induct)
  case less
  have sq: "lmul p p = p * p" using less.prems(3,8) by (intro lmul_exact) simp_all
  show ?case
  proof (cases "p * p \<le> n")
    case False
    then have r: "odd_factors p n fs = Some (n, fs)"
      using sq by (subst odd_factors.simps) simp
    have "n = 1 \<or> is_prime n"
    proof (cases "n = 1")
      case True
      then show ?thesis by simp
    next
      case F: False
      with less.prems(2) have "2 \<le> n" by simp
      then have "is_prime n"
        using False less.prems(3,6) by (intro no_small_divisor_prime [of n p]) simp_all
      then show ?thesis by simp
    qed
    with r less.prems(1) show ?thesis by blast
  next
    case True
    have p2: "2 \<le> p" using less.prems(3) by simp
    from divide_out_spec [OF less.prems(2) p2, of 0] obtain n1 k where
      d: "divide_out n p 0 = Some (n1, int k)" "n = n1 * p ^ k" "\<not> p dvd n1" "1 \<le> n1"
      by auto
    let ?fs1 = "if int k > 0 then fs @ [(p, int k)] else fs"
    have step: "odd_factors p n fs = odd_factors (p + 2) n1 ?fs1"
      using True d(1) sq by (subst odd_factors.simps) simp
    have n1dvd: "n1 dvd n" using d(2) by simp
    have n1le: "n1 \<le> n"
      using n1dvd less.prems(2) by (intro zdvd_imp_le) simp_all
    have ple: "p * 1 \<le> p * p" using less.prems(3) by (intro mult_left_mono) simp_all
    have pn: "p \<le> n" using ple True by simp
    have ok: "factors_ok n0 ?fs1 n1"
    proof (cases "k = 0")
      case True
      with d(2) less.prems(1) show ?thesis by simp
    next
      case False
      then have k: "0 < k" by simp
      then have "p dvd n" using d(2) by (cases k) simp_all
      then have "is_prime p" using p2 less.prems(6) by (intro least_divisor_prime) simp_all
      then have "factors_ok n0 (fs @ [(p, int k)]) n1"
        using less.prems(1) d(2,3) k by (intro factors_ok_extend [of n0 fs n n1 p k]) simp_all
      with k show ?thesis by simp
    qed
    have oddn1: "odd n1" using less.prems(5) n1dvd by (meson dvd_trans)
    have trial: "\<forall>d. 2 \<le> d \<and> d < p + 2 \<longrightarrow> \<not> d dvd n1"
    proof (intro allI impI)
      fix d assume dd: "2 \<le> d \<and> d < p + 2"
      show "\<not> d dvd n1"
      proof
        assume dv: "d dvd n1"
        then have dvn: "d dvd n" using n1dvd by (rule dvd_trans)
        have "d < p \<or> d = p \<or> d = p + 1" using dd by linarith
        then show False
        proof (elim disjE)
          assume "d < p"
          with dd dvn less.prems(6) show False by blast
        next
          assume "d = p"
          with dv d(3) show False by simp
        next
          assume "d = p + 1"
          then have "even d" using less.prems(4) by simp
          then have "even n1" using dv by (rule dvd_trans)
          with oddn1 show False by simp
        qed
      qed
    qed
    have m: "nat (n1 + 1 - (p + 2)) < nat (n + 1 - p)" using n1le pn by simp
    have op: "odd (p + 2)" using less.prems(4) by simp
    have n1b: "n1 \<le> 2 ^ 62" using n1le less.prems(7) by simp
    have "p * p \<le> 2 ^ 62" using True less.prems(7) by simp
    then have "p \<le> 2147483648" using less.prems(3) by (intro square_bound) simp_all
    then have pb: "p + 2 \<le> 2147483650" by simp
    from less.hyps [OF m ok d(4) _ op oddn1 trial n1b pb] less.prems(3)
    obtain n2 fs2 where "odd_factors (p + 2) n1 ?fs1 = Some (n2, fs2)"
      "factors_ok n0 fs2 n2" "n2 = 1 \<or> is_prime n2" by auto
    with step show ?thesis by auto
  qed
qed

lemma factorization_spec:
  assumes "1 \<le> n0" "n0 \<le> 2 ^ 62"
  shows "\<exists>fs. factorization n0 = Some fs \<and> factor_product fs = n0 \<and>
           phi n0 = factor_totient fs \<and> (\<forall>(p, k) \<in> set fs. is_prime p \<and> 1 \<le> k)"
proof -
  from divide_out_spec [OF assms(1), of 2 0] obtain n k where
    d: "divide_out n0 2 0 = Some (n, int k)" "n0 = n * 2 ^ k" "\<not> 2 dvd n" "1 \<le> n"
    by auto
  let ?fs0 = "if int k > 0 then [(2, int k)] else []"
  have ok0: "factors_ok n0 ?fs0 n"
  proof (cases "k = 0")
    case True
    with d(2) show ?thesis by (simp add: factors_ok_Nil)
  next
    case False
    then have k: "0 < k" by simp
    have "factors_ok n0 ([] @ [(2, int k)]) n"
      using d(2,3) k is_prime_two
      by (intro factors_ok_extend [of n0 "[]" n0 n 2 k]) (simp_all add: factors_ok_Nil)
    with k show ?thesis by simp
  qed
  have trial: "\<forall>d. 2 \<le> d \<and> d < 3 \<longrightarrow> \<not> d dvd n"
  proof (intro allI impI)
    fix d :: int assume "2 \<le> d \<and> d < 3"
    then have "d = 2" by simp
    with d(3) show "\<not> d dvd n" by simp
  qed
  have "n dvd n0" using d(2) by simp
  then have "n \<le> n0" using assms(1) by (intro zdvd_imp_le) simp_all
  then have nb: "n \<le> 2 ^ 62" using assms(2) by simp
  from odd_factors_spec [OF ok0 d(4) _ _ d(3) trial nb] obtain n1 fs1 where
    o: "odd_factors 3 n ?fs0 = Some (n1, fs1)" "factors_ok n0 fs1 n1" "n1 = 1 \<or> is_prime n1"
    by auto
  let ?fs = "if n1 > 1 then fs1 @ [(n1, 1)] else fs1"
  have f: "factorization n0 = Some ?fs"
    using d(1) o(1) by (simp add: factorization_def)
  have "factors_ok n0 ?fs 1"
  proof (cases "n1 = 1")
    case True
    with o(2) show ?thesis by simp
  next
    case False
    with o(3) have pr: "is_prime n1" by simp
    then have n2: "2 \<le> n1" by (simp add: is_prime_def)
    have "factors_ok n0 (fs1 @ [(n1, int 1)]) 1"
      using o(2) pr n2 by (intro factors_ok_extend [of n0 fs1 n1 1 n1 1]) simp_all
    with n2 show ?thesis by simp
  qed
  then have "factor_product ?fs = n0" "phi (factor_product ?fs) = factor_totient ?fs"
    "\<forall>(p, k) \<in> set ?fs. is_prime p \<and> 1 \<le> k"
    by (simp_all add: factors_ok_def)
  with f show ?thesis by (intro exI [of _ ?fs]) simp
qed

lemma power_split_one:
  fixes p :: int
  assumes "1 \<le> k" shows "p ^ nat k = p * p ^ nat (k - 1)"
proof -
  have "nat k = Suc (nat (k - 1))" using assms by simp
  then have "p ^ nat k = p ^ Suc (nat (k - 1))" by (rule arg_cong)
  then show ?thesis by simp
qed

lemma ldiv_power_prime:
  assumes "2 \<le> p" "1 \<le> k" shows "ldiv (p ^ nat k) p = p ^ nat (k - 1)"
proof -
  have "0 \<le> p ^ nat k" using assms(1) by simp
  then have "ldiv (p ^ nat k) p = p ^ nat k div p" using assms(1) by (intro ldiv_nonneg) simp_all
  also have "\<dots> = p ^ nat (k - 1)" using assms by (simp add: power_split_one [OF assms(2)])
  finally show ?thesis .
qed

lemma factor_generators_spec:
  assumes "is_prime p" "1 \<le> k" "p ^ nat k \<le> 2 ^ 62"
  shows "\<exists>gs os. factor_generators p k = Some (gs, os) \<and> length gs = length os \<and>
           prod_list os = p ^ nat k - p ^ nat (k - 1) \<and> (\<forall>m \<in> set os. 1 \<le> m)"
proof (cases "p = 2")
  case True
  have pk: "pk_loop 2 (nat k) = 2 ^ nat k"
    using assms(3) True by (intro pk_loop_exact) simp_all
  consider "k \<ge> 3" | "k = 2" | "k = 1" using assms(2) by linarith
  then show ?thesis
  proof cases
    case 1
    have e: "(2::int) ^ nat k = 4 * 2 ^ nat (k - 2)"
    proof -
      have "nat k = Suc (Suc (nat (k - 2)))" using 1 by simp
      then have "(2::int) ^ nat k = 2 ^ Suc (Suc (nat (k - 2)))" by (rule arg_cong)
      then show ?thesis by simp
    qed
    have q: "ldiv (2 ^ nat k) 4 = 2 ^ nat (k - 2)"
    proof -
      have "ldiv (2 ^ nat k) 4 = (2::int) ^ nat k div 4" by (intro ldiv_nonneg) simp_all
      then show ?thesis by (simp add: e)
    qed
    have h: "(2::int) ^ nat (k - 1) = 2 * 2 ^ nat (k - 2)"
      using power_split_one [of "k - 1" 2] 1 by simp
    have "factor_generators p k = Some ([- 1, 3], [2, 2 ^ nat (k - 2)])"
      using True 1 q pk by (simp add: factor_generators_def)
    moreover have "prod_list [2, (2::int) ^ nat (k - 2)] = 2 ^ nat k - 2 ^ nat (k - 1)"
      by (simp add: e h)
    ultimately show ?thesis using True by (intro exI) (auto simp: True)
  next
    case 2
    have "factor_generators p k = Some ([- 1], [2])"
      using True 2 pk by (simp add: factor_generators_def)
    then show ?thesis using True 2 by (intro exI) auto
  next
    case 3
    have "factor_generators p k = Some ([], [])"
      using True 3 pk by (simp add: factor_generators_def)
    then show ?thesis using True 3 by (intro exI) auto
  qed
next
  case False
  have p2: "2 \<le> p" using assms(1) by (simp add: is_prime_def)
  with False have p3: "3 \<le> p" by simp
  have pk: "pk_loop p (nat k) = p ^ nat k"
    using assms(3) p2 by (intro pk_loop_exact) simp_all
  have "p \<le> p ^ nat k" using p2 assms(2) by (intro self_le_power) simp_all
  then have pb: "p \<le> 2 ^ 62" using assms(3) by linarith
  from find_generator_terminates [OF p3 pb, of 2 k] p3 obtain g where
    g: "find_generator 2 p k = Some g" by auto
  have q: "ldiv (p ^ nat k) p = p ^ nat (k - 1)" using p2 assms(2) by (rule ldiv_power_prime)
  have f: "factor_generators p k = Some ([g], [p ^ nat k - p ^ nat (k - 1)])"
    using False g q pk by (simp add: factor_generators_def)
  have "p ^ nat (k - 1) * 1 < p ^ nat (k - 1) * p"
    using p2 by (intro mult_strict_left_mono) simp_all
  then have "p ^ nat (k - 1) < p ^ nat k" by (simp add: power_split_one [OF assms(2)] mult.commute)
  then have "1 \<le> p ^ nat k - p ^ nat (k - 1)" by simp
  with f show ?thesis by (intro exI) auto
qed

lemma all_factor_generators_spec:
  assumes "\<forall>(p, k) \<in> set fs. is_prime p \<and> 1 \<le> k \<and> p ^ nat k \<le> 2 ^ 62"
  shows "\<exists>gs os. all_factor_generators fs = Some (gs, os) \<and> length gs = length os \<and>
           prod_list os = factor_totient fs \<and> (\<forall>m \<in> set os. 1 \<le> m)"
  using assms
proof (induction fs)
  case Nil
  then show ?case by (simp add: factor_totient_def)
next
  case (Cons f fs)
  obtain p k where f: "f = (p, k)" by (cases f)
  have pk: "is_prime p" "1 \<le> k" "p ^ nat k \<le> 2 ^ 62" using Cons.prems f by auto
  from factor_generators_spec [OF pk] obtain gs os where
    a: "factor_generators p k = Some (gs, os)" "length gs = length os"
      "prod_list os = p ^ nat k - p ^ nat (k - 1)" "\<forall>m \<in> set os. 1 \<le> m" by blast
  from Cons.IH Cons.prems obtain gs1 os1 where
    b: "all_factor_generators fs = Some (gs1, os1)" "length gs1 = length os1"
      "prod_list os1 = factor_totient fs" "\<forall>m \<in> set os1. 1 \<le> m" by auto
  have "all_factor_generators (f # fs) = Some (gs @ gs1, os @ os1)"
    using a(1) b(1) f by simp
  moreover have "prod_list (os @ os1) = factor_totient (f # fs)"
    using a(3) b(3) f by (simp add: factor_totient_def)
  ultimately show ?case using a(2,4) b(2,4) by (intro exI) auto
qed

lemma factor_product_ge_one:
  assumes "\<forall>(p, k) \<in> set fs. 1 \<le> p" shows "1 \<le> factor_product fs"
  using assms
proof (induction fs)
  case Nil
  show ?case by (simp add: factor_product_def)
next
  case (Cons f fs)
  obtain p k where f: "f = (p, k)" by (cases f)
  have "1 \<le> p ^ nat k" using Cons.prems f by simp
  moreover have "1 \<le> factor_product fs" using Cons by simp
  ultimately have "1 * 1 \<le> p ^ nat k * factor_product fs" by (intro mult_mono) simp_all
  then show ?case by (simp add: f factor_product_def)
qed

lemma factor_le_product:
  assumes "\<forall>(p, k) \<in> set fs. 1 \<le> p"
  shows "(p, k) \<in> set fs \<Longrightarrow> p ^ nat k \<le> factor_product fs"
  using assms
proof (induction fs)
  case Nil
  then show ?case by simp
next
  case (Cons f fs)
  obtain q j where f: "f = (q, j)" by (cases f)
  have q1: "1 \<le> q ^ nat j" using Cons.prems f by simp
  have r1: "1 \<le> factor_product fs" using Cons.prems by (intro factor_product_ge_one) simp
  have e: "factor_product (f # fs) = q ^ nat j * factor_product fs"
    by (simp add: f factor_product_def)
  show ?case
  proof (cases "(p, k) = f")
    case True
    have "q ^ nat j * 1 \<le> q ^ nat j * factor_product fs"
      using q1 r1 by (intro mult_left_mono) simp_all
    then show ?thesis using True f e by simp
  next
    case False
    then have "(p, k) \<in> set fs" using Cons.prems by simp
    then have "p ^ nat k \<le> factor_product fs" using Cons by simp
    moreover have "1 * factor_product fs \<le> q ^ nat j * factor_product fs"
      using q1 r1 by (intro mult_right_mono) simp_all
    ultimately show ?thesis using e by simp
  qed
qed

lemma compute_generators_spec:
  assumes "1 \<le> n" "n \<le> 2 ^ 62"
  shows "\<exists>gs os. compute_generators n = Some (gs, os) \<and> length gs = length os \<and>
           prod_list os = phi n \<and> (\<forall>m \<in> set os. 1 \<le> m)"
proof (cases "n = 1")
  case True
  then show ?thesis by (simp add: compute_generators_def phi_one)
next
  case False
  from factorization_spec [OF assms] obtain fs where
    f: "factorization n = Some fs" "phi n = factor_totient fs"
      "\<forall>(p, k) \<in> set fs. is_prime p \<and> 1 \<le> k" and fp: "factor_product fs = n" by blast
  have pos: "\<forall>(p, k) \<in> set fs. 1 \<le> p" using f(3) by (auto simp: is_prime_def)
  have "\<forall>(p, k) \<in> set fs. is_prime p \<and> 1 \<le> k \<and> p ^ nat k \<le> 2 ^ 62"
  proof (intro ballI, clarify)
    fix p k assume m: "(p, k) \<in> set fs"
    have "p ^ nat k \<le> factor_product fs" using pos m by (rule factor_le_product)
    then have "p ^ nat k \<le> 2 ^ 62" using fp assms(2) by linarith
    with f(3) m show "is_prime p \<and> 1 \<le> k \<and> p ^ nat k \<le> 2 ^ 62" by auto
  qed
  from all_factor_generators_spec [OF this] obtain gs os where
    g: "all_factor_generators fs = Some (gs, os)" "length gs = length os"
      "prod_list os = factor_totient fs" "\<forall>m \<in> set os. 1 \<le> m" by blast
  have "compute_generators n = Some (gs, os)"
    using False f(1) g(1) by (simp add: compute_generators_def)
  with g f(2) show ?thesis by (intro exI) auto
qed

section \<open>Facts about the logarithm\<close>

lemma pval_nonneg: "0 \<le> p_adic_valuation n p"
proof (induction n p rule: p_adic_valuation.induct)
  case (1 n p)
  then show ?case by (subst p_adic_valuation.simps) auto
qed

lemma pval_decomp:
  "n \<noteq> 0 \<Longrightarrow> 2 \<le> p \<Longrightarrow>
   p ^ nat (p_adic_valuation n p) dvd n \<and> \<not> p dvd (n div p ^ nat (p_adic_valuation n p))"
proof (induction n p rule: p_adic_valuation.induct)
  case (1 n p)
  show ?case
  proof (cases "p dvd n")
    case False
    then have "p_adic_valuation n p = 0" by (rule pval_not_dvd)
    with False show ?thesis by simp
  next
    case True
    then obtain m where m: "n = p * m" by (auto simp: dvd_def)
    have m0: "m \<noteq> 0" using "1.prems" m by auto
    have d: "n div p = m" using "1.prems" m by simp
    have v: "p_adic_valuation n p = 1 + p_adic_valuation m p"
      using True "1.prems" d by (subst p_adic_valuation.simps) simp
    have ih: "p ^ nat (p_adic_valuation m p) dvd m \<and>
        \<not> p dvd (m div p ^ nat (p_adic_valuation m p))"
      using "1.IH" True "1.prems" m0 d by simp
    let ?k = "nat (p_adic_valuation m p)"
    have k: "nat (p_adic_valuation n p) = Suc ?k"
      using v pval_nonneg [of m p] by simp
    have "p ^ Suc ?k dvd n" using ih m by simp
    moreover have "n div p ^ Suc ?k = m div p ^ ?k"
      using "1.prems" m by (simp add: zdiv_zmult2_eq [symmetric])
    ultimately show ?thesis using ih k by simp
  qed
qed

lemma pval_ge_one_iff:
  assumes "r \<noteq> 0" "2 \<le> p" shows "1 \<le> p_adic_valuation r p \<longleftrightarrow> p dvd r"
proof (cases "p dvd r")
  case True
  then have "p_adic_valuation r p = 1 + p_adic_valuation (r div p) p"
    using assms by (subst p_adic_valuation.simps) simp
  with True pval_nonneg [of "r div p" p] show ?thesis by simp
next
  case False
  then show ?thesis by (simp add: pval_not_dvd)
qed

lemma pval_ge_two_iff:
  assumes "r \<noteq> 0" "2 \<le> p" shows "2 \<le> p_adic_valuation r p \<longleftrightarrow> p * p dvd r"
proof (cases "p dvd r")
  case True
  then obtain m where m: "r = p * m" by (auto simp: dvd_def)
  have m0: "m \<noteq> 0" using assms m by auto
  have d: "r div p = m" using assms m by simp
  have "p_adic_valuation r p = 1 + p_adic_valuation m p"
    using True assms d by (subst p_adic_valuation.simps) simp
  then have "2 \<le> p_adic_valuation r p \<longleftrightarrow> p dvd m"
    using pval_ge_one_iff [OF m0 assms(2)] by simp
  also have "\<dots> \<longleftrightarrow> p * p dvd r" using assms m by simp
  finally show ?thesis .
next
  case False
  then have "\<not> p * p dvd r" by (meson dvd_mult_left)
  with False show ?thesis by (simp add: pval_not_dvd)
qed

lemma prime_not_dvd_coprime:
  assumes "is_prime p" "\<not> p dvd u" shows "coprime u p"
  using assms by (simp add: prime_coprime_iff)

lemma qp_good_make:
  assumes "is_prime p" shows "qp_good p N (Qp_make p N v s)"
proof (cases "s mod p ^ nat N = 0")
  case True
  then show ?thesis by (simp add: Qp_make_def Qp_zero_def qp_good_def)
next
  case False
  have p: "2 \<le> p" using assms by (simp add: is_prime_def)
  let ?r = "s mod p ^ nat N"
  have "\<not> p dvd (?r div p ^ nat (p_adic_valuation ?r p))"
    using pval_decomp [OF False p] by simp
  then have "coprime (?r div p ^ nat (p_adic_valuation ?r p)) p"
    using assms by (rule prime_not_dvd_coprime [rotated])
  with False show ?thesis by (simp add: Qp_make_def qp_good_def Let_def)
qed

lemma qp_good_zero: "qp_good p N (Qp_zero p N)"
  by (simp add: Qp_zero_def qp_good_def)

lemma Qp_new_nonzero:
  assumes "is_prime p" "1 \<le> N" "n \<noteq> 0"
  shows "\<exists>y. Qp_new p N n = Inr y \<and> qp_good p N y \<and> qp_unit y \<noteq> 0"
proof -
  have p: "2 \<le> p" using assms by (simp add: is_prime_def)
  let ?m = "n div p ^ nat (p_adic_valuation n p)"
  have nd: "\<not> p dvd ?m" using pval_decomp [OF assms(3) p] by simp
  have "p dvd p ^ nat N" using assms(2) by (intro dvd_power) simp_all
  then have "p dvd ?m mod p ^ nat N \<longleftrightarrow> p dvd ?m" by (rule dvd_mod_iff)
  with nd have nd2: "\<not> p dvd (?m mod p ^ nat N)" by simp
  then have "?m mod p ^ nat N \<noteq> 0" by auto
  moreover have "coprime (?m mod p ^ nat N) p"
    using assms(1) nd2 by (rule prime_not_dvd_coprime)
  ultimately show ?thesis using p assms(2,3) by (simp add: Qp_new_def qp_good_def Let_def)
qed

lemma Qp_new_zero:
  assumes "2 \<le> p" "1 \<le> N" shows "Qp_new p N 0 = Inr (Qp_zero p N)"
  using assms by (simp add: Qp_new_def)

lemma Qp_add_good:
  assumes "is_prime p" "qp_good p N x" "qp_good p M y"
  shows "\<exists>z. Qp_add x y = Inr z \<and> qp_good p (min N M) z"
  using assms qp_good_make [OF assms(1)] qp_good_zero
  by (simp add: Qp_add_def qp_good_def Let_def split: valuation.splits)

lemma Qp_sub_good:
  assumes "is_prime p" "qp_good p N x" "qp_good p M y"
  shows "\<exists>z. Qp_sub x y = Inr z \<and> qp_good p (min N M) z"
  using assms qp_good_make [OF assms(1)] qp_good_zero
  by (simp add: Qp_sub_def qp_good_def Let_def split: valuation.splits)

lemma Qp_mul_good:
  assumes "is_prime p" "qp_good p N x" "qp_good p M y"
  shows "\<exists>z. Qp_mul x y = Inr z \<and> qp_good p (min N M) z"
  using assms qp_good_make [OF assms(1)] qp_good_zero
  by (simp add: Qp_mul_def qp_good_def Let_def split: valuation.splits)

lemma Qp_div_good:
  assumes "is_prime p" "qp_good p N x" "qp_good p M y" "qp_unit y \<noteq> 0"
  shows "\<exists>z. Qp_div x y = Inr z \<and> qp_good p (min N M) z"
proof -
  have p: "2 \<le> p" using assms by (simp add: is_prime_def)
  have c: "coprime (qp_unit y) (p ^ nat (min N M))"
    using assms(3,4) by (simp add: qp_good_def)
  have m: "0 < p ^ nat (min N M)" using p by simp
  from mod_inverse_coprime [OF m c] obtain d where
    d: "mod_inverse (qp_unit y) (p ^ nat (min N M)) = Inr d" by blast
  show ?thesis
    using assms(2,3,4) d qp_good_make [OF assms(1)] qp_good_zero
    by (simp add: Qp_div_def qp_good_def Qp_is_zero_def Let_def split: valuation.splits)
qed

lemma Qp_with_precision_good:
  assumes "is_prime p" "qp_prime x = p" "1 \<le> N"
  shows "\<exists>z. Qp_with_precision x N = Inr z \<and> qp_good p N z"
  using assms qp_good_make [OF assms(1)] qp_good_zero
  by (simp add: Qp_with_precision_def split: valuation.splits)

lemma log_step_good:
  assumes "is_prime p" "1 \<le> wp" "n \<noteq> 0"
    "qp_good p wp u" "qp_good p wp result" "qp_good p wp u_power"
  shows "\<exists>go_on result1 u_power1.
           log_step n p wp u result u_power = Inr (go_on, result1, u_power1) \<and>
           qp_good p wp result1 \<and> qp_good p wp u_power1"
proof -
  from Qp_new_nonzero [OF assms(1,2,3)] obtain dv where
    dv: "Qp_new p wp n = Inr dv" "qp_good p wp dv" "qp_unit dv \<noteq> 0" by blast
  from Qp_div_good [OF assms(1,6) dv(2,3)] obtain tm where
    tm: "Qp_div u_power dv = Inr tm" "qp_good p wp tm" by auto
  from Qp_add_good [OF assms(1,5) tm(2)] obtain ra where
    ra: "Qp_add result tm = Inr ra" "qp_good p wp ra" by auto
  from Qp_sub_good [OF assms(1,5) tm(2)] obtain rs where
    rs: "Qp_sub result tm = Inr rs" "qp_good p wp rs" by auto
  from Qp_mul_good [OF assms(1,6,4)] obtain up where
    up: "Qp_mul u_power u = Inr up" "qp_good p wp up" by auto
  show ?thesis
    using dv(1) tm(1) ra rs up assms(5,6)
    by (auto simp add: log_step_def ebind_def)
qed

lemma log_series_good:
  assumes "is_prime p" "1 \<le> wp" "qp_good p wp u"
  shows "1 \<le> n \<Longrightarrow> qp_good p wp result \<Longrightarrow> qp_good p wp u_power \<Longrightarrow>
         \<exists>r. log_series n terms p wp u result u_power = Inr r \<and> qp_good p wp r"
proof (induction "nat (terms + 1 - n)" arbitrary: n result u_power rule: less_induct)
  case less
  show ?case
  proof (cases "n \<le> terms")
    case False
    then show ?thesis using less.prems(2) by (subst log_series.simps) simp
  next
    case True
    have n0: "n \<noteq> 0" using less.prems(1) by simp
    from log_step_good [OF assms(1,2) n0 assms(3) less.prems(2,3)]
    obtain go_on result1 u_power1 where
      s: "log_step n p wp u result u_power = Inr (go_on, result1, u_power1)"
        "qp_good p wp result1" "qp_good p wp u_power1" by blast
    show ?thesis
    proof (cases go_on)
      case False
      then show ?thesis using True s by (subst log_series.simps) simp
    next
      case g: True
      have m: "nat (terms + 1 - (n + 1)) < nat (terms + 1 - n)" using True by simp
      have n1: "1 \<le> n + 1" using less.prems(1) by simp
      from less.hyps [OF m n1 s(2,3)] obtain r where
        "log_series (n + 1) terms p wp u result1 u_power1 = Inr r" "qp_good p wp r" by blast
      then show ?thesis using True s(1) g by (subst log_series.simps) simp
    qed
  qed
qed

lemma count_p_divides_returns:
  assumes "2 \<le> p"
  shows "1 \<le> n \<Longrightarrow> 0 \<le> cnt \<Longrightarrow> \<exists>c. count_p_divides n p N cnt = Some c \<and> 0 \<le> c"
proof (induction "nat (N * 2 + 1 - n)" arbitrary: n cnt rule: less_induct)
  case less
  show ?case
  proof (cases "n \<le> N * 2")
    case False
    then show ?thesis using less.prems(2) by (subst count_p_divides.simps) simp
  next
    case True
    have "n * 1 < n * p" using less.prems(1) assms by (intro mult_strict_left_mono) simp_all
    then have lt: "n < n * p" by simp
    then have m: "nat (N * 2 + 1 - n * p) < nat (N * 2 + 1 - n)" using True by simp
    have "1 \<le> n * p" using lt less.prems(1) by linarith
    from less.hyps [OF m this, of "cnt + 1"] less.prems(2) obtain c where
      "count_p_divides (n * p) p N (cnt + 1) = Some c" "0 \<le> c" by auto
    then show ?thesis using True by (subst count_p_divides.simps) simp
  qed
qed

lemma Qp_new_one:
  assumes "2 \<le> p" "1 \<le> N"
  shows "Qp_new p N 1 = Inr \<lparr>qp_prime = p, qp_precision = N, qp_valuation = Val 0, qp_unit = 1\<rparr>"
proof -
  have "\<not> p dvd 1" using assms(1) by simp
  then have v: "p_adic_valuation 1 p = 0" by (rule pval_not_dvd)
  have "1 < p ^ nat N" using assms by (intro one_less_power) simp_all
  then show ?thesis using assms v by (simp add: Qp_new_def)
qed

lemma check_convergence_condition_eq:
  assumes "Qp_inv x" "\<not> Qp_is_zero x" "qp_valuation x = Val 0"
  shows "check_convergence_condition x = Inr (congruent_one x)"
proof -
  let ?p = "qp_prime x" and ?N = "qp_precision x" and ?u = "qp_unit x"
  have p: "2 \<le> ?p" and N: "1 \<le> ?N" and u: "0 < ?u" "?u < ?p ^ nat ?N"
    using assms(1,3) by (simp_all add: Qp_inv_def)
  have r: "(?u - 1) mod ?p ^ nat ?N = ?u - 1" using u by simp
  have diff: "Qp_sub x \<lparr>qp_prime = ?p, qp_precision = ?N, qp_valuation = Val 0, qp_unit = 1\<rparr>
      = Inr (Qp_make ?p ?N 0 (?u - 1))"
    using assms(3) by (simp add: Qp_sub_def)
  have c: "check_convergence_condition x =
      Inr (if ?p = 2 then val_ge (qp_valuation (Qp_make ?p ?N 0 (?u - 1))) 2
           else val_ge (qp_valuation (Qp_make ?p ?N 0 (?u - 1))) 1)"
    using assms(2) by (simp add: check_convergence_condition_def Qp_new_one [OF p N] ebind_def diff)
  show ?thesis
  proof (cases "?u = 1")
    case True
    have one: "(1::int) mod 4 = 1" "(1::int) mod ?p = 1" using p by simp_all
    have "qp_valuation (Qp_make ?p ?N 0 (?u - 1)) = PosInf"
      using True by (simp add: Qp_make_def Qp_zero_def)
    then show ?thesis using c True one by (auto simp: congruent_one_def)
  next
    case False
    then have nz: "?u - 1 \<noteq> 0" by simp
    have v: "qp_valuation (Qp_make ?p ?N 0 (?u - 1)) = Val (p_adic_valuation (?u - 1) ?p)"
      using nz r by (simp add: Qp_make_def Let_def)
    show ?thesis
    proof (cases "?p = 2")
      case True
      have "2 \<le> p_adic_valuation (?u - 1) 2 \<longleftrightarrow> 2 * 2 dvd ?u - 1"
        using nz by (intro pval_ge_two_iff) simp_all
      also have "\<dots> \<longleftrightarrow> ?u mod 4 = 1"
        by (simp add: mod_eq_dvd_iff [of ?u 4 1, symmetric])
      finally have e: "2 \<le> p_adic_valuation (?u - 1) 2 \<longleftrightarrow> ?u mod 4 = 1" .
      show ?thesis using c v True e by (auto simp: congruent_one_def)
    next
      case F2: False
      have p1: "1 mod ?p = 1" using p by simp
      have "1 \<le> p_adic_valuation (?u - 1) ?p \<longleftrightarrow> ?p dvd ?u - 1"
        using nz p by (rule pval_ge_one_iff)
      also have "\<dots> \<longleftrightarrow> ?u mod ?p = 1"
        using p1 by (simp add: mod_eq_dvd_iff [of ?u ?p 1, symmetric])
      finally show ?thesis using c v F2 by (simp add: congruent_one_def)
    qed
  qed
qed

lemma log_at_precision_eq:
  assumes "Qp_inv x" "is_prime (qp_prime x)" "\<not> Qp_is_zero x" "qp_valuation x = Val 0"
    "1 \<le> wp"
  shows "if congruent_one x then \<exists>y. log_at_precision x wp = Inr y
         else log_at_precision x wp = Inl DomainError"
proof -
  let ?p = "qp_prime x" and ?N = "qp_precision x"
  have p: "2 \<le> ?p" and N: "1 \<le> ?N" using assms(1) by (simp_all add: Qp_inv_def)
  have pr: "is_prime ?p" by (rule assms(2))
  have one: "Qp_new ?p wp 1 =
      Inr \<lparr>qp_prime = ?p, qp_precision = wp, qp_valuation = Val 0, qp_unit = 1\<rparr>"
    using p assms(5) by (rule Qp_new_one)
  have og: "qp_good ?p wp \<lparr>qp_prime = ?p, qp_precision = wp, qp_valuation = Val 0, qp_unit = 1\<rparr>"
    by (simp add: qp_good_def)
  from Qp_with_precision_good [OF pr refl assms(5)] obtain xw where
    xw: "Qp_with_precision x wp = Inr xw" "qp_good ?p wp xw" by blast
  from Qp_sub_good [OF pr xw(2) og] obtain u where
    u: "Qp_sub xw \<lparr>qp_prime = ?p, qp_precision = wp, qp_valuation = Val 0, qp_unit = 1\<rparr> = Inr u"
      "qp_good ?p wp u" by auto
  have c: "check_convergence_condition x = Inr (congruent_one x)"
    using assms(1,3,4) by (rule check_convergence_condition_eq)
  from Qp_mul_good [OF pr u(2) u(2)] obtain u2 where
    u2: "Qp_mul u u = Inr u2" "qp_good ?p wp u2" by auto
  let ?terms = "compute_required_terms wp (qp_valuation u)"
  from log_series_good [OF pr assms(5) u(2) _ u(2) u2(2), of 2 ?terms] obtain r where
    r: "log_series 2 ?terms ?p wp u u u2 = Inr r" "qp_good ?p wp r" by auto
  have rp: "qp_prime r = ?p" using r(2) by (simp add: qp_good_def)
  from Qp_with_precision_good [OF pr rp N] obtain y where
    y: "Qp_with_precision r ?N = Inr y" by blast
  have z: "Qp_new ?p ?N 0 = Inr (Qp_zero ?p ?N)" using p N by (rule Qp_new_zero)
  show ?thesis
    by (simp add: log_at_precision_def one xw(1) u(1) c u2(1) r(1) y z ebind_def Let_def)
qed

lemma is_prime_three: "is_prime 3"
  unfolding is_prime_def
proof (intro conjI allI impI)
  show "(2::int) \<le> 3" by simp
next
  fix d :: int assume "2 \<le> d \<and> d < 3"
  then have "d = 2" by simp
  then show "\<not> d dvd 3" by simp
qed

section \<open>Additivity of the logarithm\<close>

subsection \<open>Valuations of integers and the number of terms\<close>

lemma prime_power_cancel:
  assumes "is_prime p" "\<not> p dvd m" "p ^ k dvd m * X" shows "p ^ k dvd X"
proof -
  have "coprime m p" using assms(1,2) by (simp add: prime_coprime_iff)
  then have "coprime (p ^ k) m" by (simp add: coprime_commute)
  then show ?thesis using assms(3) by (simp add: coprime_dvd_mult_right_iff)
qed

lemma pval_power_le:
  assumes "1 \<le> n" "2 \<le> p" shows "p ^ nat (p_adic_valuation n p) \<le> n"
proof -
  have "n \<noteq> 0" using assms by simp
  from pval_decomp [OF this assms(2)] have "p ^ nat (p_adic_valuation n p) dvd n" by simp
  then show ?thesis using assms(1) by (intro zdvd_imp_le) simp_all
qed

lemma double_le_power: "2 * int e \<le> p ^ e" if "2 \<le> p" "1 \<le> e" for p :: int
proof -
  have "2 * int e \<le> 2 ^ e" using that(2)
  proof (induction e rule: dec_induct)
    case base show ?case by simp
  next
    case (step k)
    have "2 * int (Suc k) \<le> 2 * (2 * int k)" using step(1) by simp
    also have "\<dots> \<le> 2 * 2 ^ k" using step(3) by simp
    finally show ?case by simp
  qed
  also have "(2::int) ^ e \<le> p ^ e" using that(1) by (intro power_mono) simp_all
  finally show ?thesis .
qed

lemma pval_double_le:
  assumes "1 \<le> n" "2 \<le> p" shows "2 * p_adic_valuation n p \<le> n"
proof (cases "p_adic_valuation n p \<le> 0")
  case True
  then show ?thesis using assms by simp
next
  case False
  let ?e = "nat (p_adic_valuation n p)"
  have e: "1 \<le> ?e" "int ?e = p_adic_valuation n p" using False by simp_all
  have "2 * int ?e \<le> p ^ ?e" using assms(2) e(1) by (rule double_le_power)
  also have "\<dots> \<le> n" using assms by (rule pval_power_le)
  finally show ?thesis using e(2) by simp
qed

lemma pval_split:
  assumes "1 \<le> n" "is_prime p"
  obtains e m where "n = p ^ e * m" "\<not> p dvd m" "int e = p_adic_valuation n p" "2 * int e \<le> n"
proof -
  have p: "2 \<le> p" using assms(2) by (simp add: is_prime_def)
  have n0: "n \<noteq> 0" using assms by simp
  let ?e = "nat (p_adic_valuation n p)"
  from pval_decomp [OF n0 p] have d: "p ^ ?e dvd n" "\<not> p dvd n div p ^ ?e" by simp_all
  have "n = p ^ ?e * (n div p ^ ?e)" using d(1) by simp
  moreover have "int ?e = p_adic_valuation n p" using pval_nonneg [of n p] by simp
  moreover have "2 * int ?e \<le> n" using pval_double_le [OF assms(1) p] pval_nonneg [of n p] by simp
  ultimately show ?thesis using d(2) that by blast
qed

lemma count_p_divides_spec:
  assumes "2 \<le> p"
  shows "count_p_divides (p ^ Suc j) p N (int j) = Some c \<Longrightarrow>
         int j \<le> c \<and> 2 * N < p ^ Suc (nat c)"
proof (induction "nat (N * 2 + 1 - p ^ Suc j)" arbitrary: j rule: less_induct)
  case less
  show ?case
  proof (cases "p ^ Suc j \<le> N * 2")
    case False
    then have "c = int j" using less.prems by (subst (asm) count_p_divides.simps) simp
    then show ?thesis using False by simp
  next
    case True
    have pos: "0 < p ^ Suc j" using assms by simp
    have "p ^ Suc j * 1 < p ^ Suc j * p" using pos assms by (intro mult_strict_left_mono) simp_all
    then have lt: "p ^ Suc j < p ^ Suc (Suc j)" by (simp add: mult.commute)
    then have m: "nat (N * 2 + 1 - p ^ Suc (Suc j)) < nat (N * 2 + 1 - p ^ Suc j)"
      using True by simp
    have "count_p_divides (p ^ Suc (Suc j)) p N (int (Suc j)) = Some c"
      using less.prems True by (subst (asm) count_p_divides.simps) (simp add: mult.commute add.commute)
    from less.hyps [OF m this] show ?thesis by simp
  qed
qed

lemma truncation_bound:
  assumes "is_prime p" "1 \<le> N" "0 \<le> cnt" "2 * N < p ^ Suc (nat cnt)"
    "1 \<le> m" "1 \<le> v" "N + cnt + 5 \<le> m * v"
  shows "N \<le> m * v - p_adic_valuation m p"
proof -
  have p: "2 \<le> p" using assms(1) by (simp add: is_prime_def)
  have mv: "m \<le> m * v" using assms(5,6) by (simp add: mult_le_cancel_left1)
  show ?thesis
  proof (cases "p_adic_valuation m p \<le> cnt + 5")
    case True
    then show ?thesis using assms(7) by simp
  next
    case False
    let ?e = "nat (p_adic_valuation m p)"
    have "Suc (nat cnt) \<le> ?e" using False assms(3) by simp
    then have "p ^ Suc (nat cnt) \<le> p ^ ?e" using p by (intro power_increasing) simp_all
    also have "\<dots> \<le> m" using assms(5) p by (rule pval_power_le)
    finally have "2 * N < m" using assms(4) by simp
    moreover have "2 * p_adic_valuation m p \<le> m" using assms(5) p by (rule pval_double_le)
    ultimately show ?thesis using mv by simp
  qed
qed

subsection \<open>Binomial coefficients of a prime power minus one\<close>

lemma binomial_step_int:
  "int (Suc m) * int (n choose Suc m) = (int n - int m) * int (n choose m)"
proof (cases "m \<le> n")
  case True
  have "Suc m * (n choose Suc m) = n * (n - 1 choose m)" by (rule binomial_absorption)
  also have "\<dots> = (n - m) * (n choose m)" by (rule binomial_absorb_comp [symmetric])
  finally have "Suc m * (n choose Suc m) = (n - m) * (n choose m)" .
  then have "int (Suc m * (n choose Suc m)) = int ((n - m) * (n choose m))" by simp
  then show ?thesis using True by (simp add: of_nat_diff algebra_simps)
next
  case False
  then have z: "n choose m = 0" "n choose Suc m = 0" by (simp_all add: binomial_eq_0)
  show ?thesis by (simp only: z mult_zero_right of_nat_0)
qed

lemma binomial_fact_cong:
  fixes p :: int
  assumes "int n = p ^ K - 1"
  shows "p ^ K dvd fact m * (int (n choose m) - (- 1) ^ m)"
proof (induction m)
  case 0
  show ?case by simp
next
  case (Suc m)
  let ?C = "int (n choose m)"
  have "fact (Suc m) * (int (n choose Suc m) - (- 1) ^ Suc m)
      = fact m * (int (Suc m) * int (n choose Suc m)) + fact m * (int (Suc m) * (- 1) ^ m)"
    by (simp add: algebra_simps)
  also have "\<dots> = fact m * ((int n - int m) * ?C) + fact m * (int (Suc m) * (- 1) ^ m)"
    by (simp only: binomial_step_int)
  also have "\<dots> = p ^ K * (fact m * ?C) - int (Suc m) * (fact m * (?C - (- 1) ^ m))"
    unfolding assms by (simp add: algebra_simps)
  finally have e: "fact (Suc m) * (int (n choose Suc m) - (- 1) ^ Suc m)
      = p ^ K * (fact m * ?C) - int (Suc m) * (fact m * (?C - (- 1) ^ m))" .
  have a: "p ^ K dvd p ^ K * (fact m * ?C)" by simp
  have b: "p ^ K dvd int (Suc m) * (fact m * (?C - (- 1) ^ m))" using Suc.IH by (rule dvd_mult)
  show ?case unfolding e using a b by (rule dvd_diff)
qed

lemma binomial_minus_one_cong:
  assumes "is_prime p" "int n = p ^ K - 1" "m \<le> T"
    "int e = p_adic_valuation (fact T) p" "e \<le> K"
  shows "p ^ (K - e) dvd int (n choose m) - (- 1) ^ m"
proof -
  have p: "2 \<le> p" using assms(1) by (simp add: is_prime_def)
  let ?D = "int (n choose m) - (- 1) ^ m"
  have "(1::int) \<le> fact T" by (simp add: fact_ge_1)
  from pval_split [OF this assms(1)] obtain e' f where
    ft: "(fact T :: int) = p ^ e' * f" and f: "\<not> p dvd f" and "int e' = p_adic_valuation (fact T) p"
    by blast
  then have ee: "e' = e" using assms(4) by simp
  have "(fact m :: int) dvd fact T" using assms(3) by (rule fact_dvd)
  then have "fact m * ?D dvd fact T * ?D" by (rule mult_dvd_mono) simp
  with binomial_fact_cong [OF assms(2), of m] have "p ^ K dvd fact T * ?D" by (rule dvd_trans)
  then have "p ^ K dvd p ^ e * (f * ?D)" using ft ee by (simp add: mult.assoc)
  then have "p ^ (e + (K - e)) dvd p ^ e * (f * ?D)" using assms(5) by simp
  then have "p ^ e * p ^ (K - e) dvd p ^ e * (f * ?D)" by (simp only: power_add)
  then have "p ^ (K - e) dvd f * ?D" using p by simp
  then show ?thesis using assms(1) f by (rule prime_power_cancel [rotated 2])
qed

subsection \<open>Congruences of powers and the algebra of additivity\<close>

lemma cancel_index:
  assumes "is_prime p" "1 \<le> j" "p ^ M dvd j * X" "int M' + p_adic_valuation j p \<le> int M"
  shows "p ^ M' dvd X"
proof -
  have p: "2 \<le> p" using assms(1) by (simp add: is_prime_def)
  from pval_split [OF assms(2,1)] obtain e m where
    j: "j = p ^ e * m" and m: "\<not> p dvd m" and e: "int e = p_adic_valuation j p" by blast
  have le: "M' + e \<le> M" using assms(4) e by simp
  have "p ^ (e + M') dvd p ^ M" using le by (intro le_imp_power_dvd) simp
  then have "p ^ (e + M') dvd j * X" using assms(3) by (rule dvd_trans)
  then have "p ^ e * p ^ M' dvd p ^ e * (m * X)" by (simp add: j power_add mult.assoc)
  then have "p ^ M' dvd m * X" using p by simp
  then show ?thesis using assms(1) m by (rule prime_power_cancel [rotated 2])
qed

lemma nat_prime_power: "2 \<le> p \<Longrightarrow> int (nat p ^ K) = p ^ K"
  by simp

lemma binomial_top_absorb:
  assumes "2 \<le> p"
  shows "int (Suc m) * int (nat p ^ K choose Suc m) = p ^ K * int (nat p ^ K - 1 choose m)"
proof -
  have "Suc m * (nat p ^ K choose Suc m) = nat p ^ K * (nat p ^ K - 1 choose m)"
    by (rule binomial_absorption)
  then have "int (Suc m * (nat p ^ K choose Suc m)) = int (nat p ^ K * (nat p ^ K - 1 choose m))"
    by (rule arg_cong)
  then show ?thesis using assms by (simp add: algebra_simps)
qed

lemma series_term_cong:
  assumes "is_prime p" "p dvd u" "m < T"
    "int e = p_adic_valuation (fact T) p" "W + e \<le> K"
    "p ^ (W + Suc m) dvd int (Suc m) * c - u ^ Suc m"
  shows "p ^ (K + W) dvd int (nat p ^ K choose Suc m) * u ^ Suc m - p ^ K * ((- 1) ^ m * c)"
proof -
  have p: "2 \<le> p" using assms(1) by (simp add: is_prime_def)
  let ?q = "nat p ^ K" and ?j = "Suc m"
  let ?C = "int (?q - 1 choose m)"
  let ?X = "int (?q choose ?j) * u ^ ?j - p ^ K * ((- 1) ^ m * c)"
  have q1: "1 \<le> ?q" using p by simp
  have n: "int (?q - 1) = p ^ K - 1" using q1 p by (simp add: of_nat_diff)
  have "p ^ (K - e) dvd ?C - (- 1) ^ m"
    using assms(1) n _ assms(4) by (rule binomial_minus_one_cong) (use assms in simp_all)
  moreover have "p ^ W dvd p ^ (K - e)" using assms(5) by (intro le_imp_power_dvd) simp
  ultimately have d: "p ^ W dvd ?C - (- 1) ^ m" by (rule dvd_trans [rotated])
  have uj: "p ^ ?j dvd u ^ ?j" using assms(2) by (rule dvd_power_same)
  have "p ^ W * p ^ ?j dvd (?C - (- 1) ^ m) * u ^ ?j" using d uj by (rule mult_dvd_mono)
  then have a: "p ^ (W + ?j) dvd (?C - (- 1) ^ m) * u ^ ?j" by (simp only: power_add)
  have "p ^ (W + ?j) dvd - (int ?j * c - u ^ ?j)" using assms(6) by (simp only: dvd_minus_iff)
  then have b: "p ^ (W + ?j) dvd (- 1) ^ m * (u ^ ?j - int ?j * c)" by (intro dvd_mult) simp
  have "p ^ (W + ?j) dvd (?C - (- 1) ^ m) * u ^ ?j + (- 1) ^ m * (u ^ ?j - int ?j * c)"
    using a b by (rule dvd_add)
  then have "p ^ K * p ^ (W + ?j) dvd
      p ^ K * ((?C - (- 1) ^ m) * u ^ ?j + (- 1) ^ m * (u ^ ?j - int ?j * c))"
    by (rule mult_dvd_mono [OF dvd_refl])
  moreover have "int ?j * ?X =
      p ^ K * ((?C - (- 1) ^ m) * u ^ ?j + (- 1) ^ m * (u ^ ?j - int ?j * c))"
  proof -
    have "int ?j * ?X = (int ?j * int (?q choose ?j)) * u ^ ?j - p ^ K * ((- 1) ^ m * (int ?j * c))"
      by (simp add: algebra_simps)
    also have "\<dots> = (p ^ K * ?C) * u ^ ?j - p ^ K * ((- 1) ^ m * (int ?j * c))"
      by (simp only: binomial_top_absorb [OF p])
    also have "\<dots> = p ^ K * ((?C - (- 1) ^ m) * u ^ ?j + (- 1) ^ m * (u ^ ?j - int ?j * c))"
      by (simp add: algebra_simps)
    finally show ?thesis .
  qed
  ultimately have h1: "p ^ (K + (W + ?j)) dvd int ?j * ?X" by (simp only: power_add)
  have h2: "int (K + W) + p_adic_valuation (int ?j) p \<le> int (K + (W + ?j))"
    using pval_double_le [of "int ?j" p] p pval_nonneg [of "int ?j" p] by simp
  have h3: "1 \<le> int ?j" by simp
  show ?thesis using assms(1) h3 h1 h2 by (rule cancel_index)
qed

lemma series_tail_zero:
  assumes "is_prime p" "p ^ v dvd u" "1 \<le> j"
    "int N \<le> int j * int v - p_adic_valuation (int j) p"
  shows "p ^ (K + N) dvd int (nat p ^ K choose j) * u ^ j"
proof -
  have p: "2 \<le> p" using assms(1) by (simp add: is_prime_def)
  obtain m where j: "j = Suc m" using assms(3) by (cases j) simp_all
  let ?q = "nat p ^ K"
  let ?C = "int (?q - 1 choose m)"
  have "(p ^ v) ^ j dvd u ^ j" using assms(2) by (rule dvd_power_same)
  then have "p ^ (j * v) dvd u ^ j" by (simp add: power_mult [symmetric] mult.commute)
  then have "p ^ K * p ^ (j * v) dvd p ^ K * (?C * u ^ j)"
    by (intro mult_dvd_mono dvd_refl dvd_mult)
  moreover have "int j * (int (?q choose j) * u ^ j) = p ^ K * (?C * u ^ j)"
    using binomial_top_absorb [OF p, of m K] by (simp add: j mult.assoc [symmetric])
  ultimately have h1: "p ^ (K + j * v) dvd int j * (int (?q choose j) * u ^ j)"
    by (simp only: power_add)
  have h2: "int (K + N) + p_adic_valuation (int j) p \<le> int (K + j * v)"
    using assms(4) by simp
  have h3: "1 \<le> int j" using assms(3) by simp
  show ?thesis using assms(1) h3 h1 h2 by (rule cancel_index)
qed

lemma lift_step:
  fixes a b :: int
  assumes "2 \<le> p" "p dvd a - b" "p ^ M dvd a - b"
  shows "p ^ Suc M dvd a ^ nat p - b ^ nat p"
proof -
  let ?P = "nat p"
  have P: "int ?P = p" "1 \<le> ?P" using assms(1) by simp_all
  have e: "a ^ ?P - b ^ ?P = (a - b) * (\<Sum>i<?P. b ^ (?P - Suc i) * a ^ i)"
    by (rule power_diff_sumr2)
  have t: "p dvd b ^ (?P - Suc i) * a ^ i - b ^ (?P - 1)" if "i < ?P" for i
  proof -
    have "a ^ i - b ^ i = (a - b) * (\<Sum>k<i. b ^ (i - Suc k) * a ^ k)" by (rule power_diff_sumr2)
    then have "a - b dvd a ^ i - b ^ i" by simp
    with assms(2) have "p dvd a ^ i - b ^ i" by (rule dvd_trans)
    then have "p dvd b ^ (?P - Suc i) * (a ^ i - b ^ i)" by (rule dvd_mult)
    moreover have "b ^ (?P - Suc i) * b ^ i = b ^ (?P - 1)"
      using that by (simp add: power_add [symmetric])
    ultimately show ?thesis by (simp add: algebra_simps)
  qed
  have "(\<Sum>i<?P. b ^ (?P - Suc i) * a ^ i)
      = (\<Sum>i<?P. b ^ (?P - Suc i) * a ^ i - b ^ (?P - 1)) + (\<Sum>i<?P. b ^ (?P - 1))"
    by (simp add: sum_subtractf)
  moreover have "p dvd (\<Sum>i<?P. b ^ (?P - Suc i) * a ^ i - b ^ (?P - 1))"
    using t by (intro dvd_sum) simp
  moreover have "p dvd (\<Sum>i<?P. b ^ (?P - 1))" using P(1) by simp
  ultimately have "p dvd (\<Sum>i<?P. b ^ (?P - Suc i) * a ^ i)" by (simp only: dvd_add)
  with assms(3) have "p ^ M * p dvd (a - b) * (\<Sum>i<?P. b ^ (?P - Suc i) * a ^ i)"
    by (rule mult_dvd_mono)
  then show ?thesis by (simp only: e) (simp add: mult.commute)
qed

lemma lift_power:
  fixes a b :: int
  assumes "2 \<le> p" "1 \<le> M" "p ^ M dvd a - b"
  shows "p ^ (M + K) dvd a ^ (nat p ^ K) - b ^ (nat p ^ K)"
proof (induction K)
  case 0
  show ?case using assms(3) by simp
next
  case (Suc K)
  have "p dvd p ^ (M + K)" using assms(2) by (intro dvd_power) simp
  then have "p dvd a ^ (nat p ^ K) - b ^ (nat p ^ K)" using Suc by (rule dvd_trans)
  from lift_step [OF assms(1) this Suc]
  show ?case by (simp add: power_mult [symmetric] mult.commute)
qed

lemma log_characterisation_additive:
  fixes x y z a b c :: int
  assumes "2 \<le> p" "N \<le> K"
    "p ^ (K + N) dvd x ^ q - 1 - p ^ K * a"
    "p ^ (K + N) dvd y ^ q - 1 - p ^ K * b"
    "p ^ (K + N) dvd z ^ q - 1 - p ^ K * c"
    "p ^ (K + N) dvd z ^ q - (x * y) ^ q"
  shows "p ^ N dvd c - (a + b)"
proof -
  let ?m = "p ^ (K + N)"
  obtain s where s: "x ^ q = 1 + p ^ K * a + ?m * s"
    using assms(3) by (auto simp: dvd_def algebra_simps)
  obtain t where t: "y ^ q = 1 + p ^ K * b + ?m * t"
    using assms(4) by (auto simp: dvd_def algebra_simps)
  have "p ^ (K + N) dvd p ^ (K + K)" using assms(2) by (intro le_imp_power_dvd) simp
  then obtain r where r: "p ^ K * p ^ K = ?m * r" by (auto simp: dvd_def power_add)
  have "(x * y) ^ q - 1 - p ^ K * (a + b) =
      ?m * (r * (a * b) + t + p ^ K * a * t + s + p ^ K * b * s + ?m * s * t)"
  proof -
    have "(x * y) ^ q - 1 - p ^ K * (a + b) =
        (p ^ K * p ^ K) * (a * b) + ?m * (t + p ^ K * a * t + s + p ^ K * b * s + ?m * s * t)"
      by (simp only: power_mult_distrib s t) (simp add: algebra_simps)
    then show ?thesis by (simp only: r) (simp add: algebra_simps)
  qed
  then have xy: "?m dvd (x * y) ^ q - 1 - p ^ K * (a + b)" by simp
  have "?m dvd (z ^ q - (x * y) ^ q) - (z ^ q - 1 - p ^ K * c)"
    using assms(6,5) by (rule dvd_diff)
  then have "?m dvd (z ^ q - (x * y) ^ q) - (z ^ q - 1 - p ^ K * c) + ((x * y) ^ q - 1 - p ^ K * (a + b))"
    using xy by (rule dvd_add)
  moreover have "(z ^ q - (x * y) ^ q) - (z ^ q - 1 - p ^ K * c) + ((x * y) ^ q - 1 - p ^ K * (a + b))
      = p ^ K * (c - (a + b))" by (simp add: algebra_simps)
  ultimately have "p ^ K * p ^ N dvd p ^ K * (c - (a + b))" by (simp only: power_add)
  then show ?thesis using assms(1) by simp
qed

subsection \<open>The integer a record stands for\<close>

lemma Qp_make_sel [simp]:
  "qp_prime (Qp_make p N v s) = p" "qp_precision (Qp_make p N v s) = N"
  by (simp_all add: Qp_make_def Qp_zero_def Let_def)

lemma Qp_zero_sel [simp]:
  "qp_prime (Qp_zero p N) = p" "qp_precision (Qp_zero p N) = N"
  "qp_valuation (Qp_zero p N) = PosInf" "qp_value (Qp_zero p N) = 0"
  by (simp_all add: Qp_zero_def qp_value_def)

lemma Qp_make_val_ge:
  assumes "0 \<le> v" shows "val_ge (qp_valuation (Qp_make p N v s)) 0"
  using assms pval_nonneg [of "s mod p ^ nat N" p] by (simp add: Qp_make_def Qp_zero_def Let_def)

lemma Qp_make_value:
  assumes "2 \<le> p" "0 \<le> v"
  shows "qp_value (Qp_make p N v s) = p ^ nat v * (s mod p ^ nat N)"
proof (cases "s mod p ^ nat N = 0")
  case True
  then show ?thesis by (simp add: Qp_make_def)
next
  case False
  let ?r = "s mod p ^ nat N"
  let ?k = "nat (p_adic_valuation ?r p)"
  have d: "p ^ ?k dvd ?r" using pval_decomp [OF False assms(1)] by simp
  have k: "nat (v + p_adic_valuation ?r p) = nat v + ?k"
    using assms(2) pval_nonneg [of ?r p] by (simp add: nat_add_distrib)
  have "qp_value (Qp_make p N v s) = (?r div p ^ ?k) * p ^ (nat v + ?k)"
    using False k by (simp add: Qp_make_def qp_value_def Let_def)
  also have "\<dots> = p ^ nat v * ((?r div p ^ ?k) * p ^ ?k)" by (simp add: power_add)
  also have "(?r div p ^ ?k) * p ^ ?k = ?r" using d by simp
  finally show ?thesis .
qed

lemma Qp_make_value_cong:
  assumes "2 \<le> p" "0 \<le> v" "t = p ^ nat v * s"
  shows "p ^ nat N dvd qp_value (Qp_make p N v s) - t"
proof -
  have "qp_value (Qp_make p N v s) - t = p ^ nat v * (s mod p ^ nat N - s)"
    by (simp add: Qp_make_value [OF assms(1,2)] assms(3) algebra_simps)
  moreover have "p ^ nat N dvd s mod p ^ nat N - s"
    by (simp add: mod_eq_dvd_iff [symmetric])
  ultimately show ?thesis by simp
qed

lemma Qp_make_coprime:
  assumes "2 \<le> p" "1 \<le> N" "\<not> p dvd s"
  shows "Qp_make p N v s =
         \<lparr>qp_prime = p, qp_precision = N, qp_valuation = Val v, qp_unit = s mod p ^ nat N\<rparr>"
proof -
  have "p dvd p ^ nat N" using assms(2) by (intro dvd_power) simp_all
  then have "p dvd s mod p ^ nat N \<longleftrightarrow> p dvd s" by (rule dvd_mod_iff)
  with assms(3) have nd: "\<not> p dvd s mod p ^ nat N" by simp
  then have "s mod p ^ nat N \<noteq> 0" by auto
  then show ?thesis using nd by (simp add: Qp_make_def pval_not_dvd)
qed

lemma Qp_make_high_valuation:
  assumes "is_prime p" "0 \<le> v" "0 \<le> N" "p ^ nat N dvd p ^ nat v * s"
  shows "val_ge (qp_valuation (Qp_make p N v s)) N"
proof (cases "s mod p ^ nat N = 0")
  case True
  then show ?thesis by (simp add: Qp_make_def)
next
  case False
  have p: "2 \<le> p" using assms(1) by (simp add: is_prime_def)
  let ?r = "s mod p ^ nat N"
  have r1: "?r \<noteq> 0" by (rule False)
  let ?k = "nat (p_adic_valuation ?r p)"
  from pval_decomp [OF r1 p] have d: "p ^ ?k dvd ?r" "\<not> p dvd ?r div p ^ ?k" by simp_all
  have rr: "?r = p ^ ?k * (?r div p ^ ?k)" using d(1) by simp
  have "p ^ nat N dvd p ^ nat v * (?r - s)"
    by (intro dvd_mult) (simp add: mod_eq_dvd_iff [symmetric])
  then have "p ^ nat N dvd p ^ nat v * (?r - s) + p ^ nat v * s" using assms(4) by (rule dvd_add)
  then have "p ^ nat N dvd p ^ nat v * ?r" by (simp add: algebra_simps)
  then have "p ^ nat N dvd (?r div p ^ ?k) * p ^ (nat v + ?k)"
    by (subst (asm) rr) (simp add: power_add mult.assoc mult.commute mult.left_commute)
  then have "p ^ nat N dvd p ^ (nat v + ?k)"
    using assms(1) d(2) by (rule prime_power_cancel [rotated 2])
  then have "p ^ nat N \<le> p ^ (nat v + ?k)" using p by (intro zdvd_imp_le) simp_all
  then have "nat N \<le> nat v + ?k" using p by (intro power_le_imp_le_exp [of p]) simp_all
  then have "N \<le> v + p_adic_valuation ?r p"
    using assms(2,3) pval_nonneg [of ?r p] by linarith
  then show ?thesis using False by (simp add: Qp_make_def Let_def)
qed

lemma qp_int_make: "0 \<le> v \<Longrightarrow> qp_int p N (Qp_make p N v s)"
  by (simp add: qp_int_def Qp_make_val_ge)

lemma qp_int_zero: "qp_int p N (Qp_zero p N)"
  by (simp add: qp_int_def)

lemma Qp_add_value:
  assumes "2 \<le> p" "qp_int p N1 x" "qp_int p N2 y" "N = min N1 N2"
  shows "\<exists>z. Qp_add x y = Inr z \<and> qp_int p N z \<and>
           p ^ nat N dvd qp_value z - (qp_value x + qp_value y)"
proof (cases "qp_valuation x")
  case (Val a)
  note vx = Val
  have a0: "0 \<le> a" using assms(2) vx by (simp add: qp_int_def)
  show ?thesis
  proof (cases "qp_valuation y")
    case (Val b)
    have b0: "0 \<le> b" using assms(3) Val by (simp add: qp_int_def)
    let ?v = "min a b"
    let ?s = "qp_unit x * p ^ nat (a - ?v) + qp_unit y * p ^ nat (b - ?v)"
    have v: "0 \<le> ?v" using a0 b0 by simp
    have z: "Qp_add x y = Inr (Qp_make p N ?v ?s)"
      using assms(2,3,4) vx Val by (simp add: Qp_add_def qp_int_def Let_def)
    have ex: "nat a = nat ?v + nat (a - ?v)" and ey: "nat b = nat ?v + nat (b - ?v)"
      using a0 b0 by simp_all
    have "qp_value x + qp_value y = qp_unit x * p ^ nat a + qp_unit y * p ^ nat b"
      using assms(2,3) vx Val by (simp add: qp_value_def qp_int_def)
    also have "\<dots> = p ^ nat ?v * ?s"
      by (subst ex, subst ey) (simp only: power_add, simp add: algebra_simps)
    finally have "p ^ nat N dvd qp_value (Qp_make p N ?v ?s) - (qp_value x + qp_value y)"
      using assms(1) v by (intro Qp_make_value_cong) simp_all
    then show ?thesis using z qp_int_make [OF v] by simp
  next
    case PosInf
    have z: "Qp_add x y = Inr (Qp_make p N a (qp_unit x))"
      using assms(2,3,4) vx PosInf by (simp add: Qp_add_def qp_int_def Let_def)
    have "qp_value x + qp_value y = p ^ nat a * qp_unit x"
      using assms(2,3) vx PosInf by (simp add: qp_value_def qp_int_def)
    then have "p ^ nat N dvd qp_value (Qp_make p N a (qp_unit x)) - (qp_value x + qp_value y)"
      using assms(1) a0 by (intro Qp_make_value_cong) simp_all
    then show ?thesis using z qp_int_make [OF a0] by simp
  qed
next
  case PosInf
  note vx = PosInf
  show ?thesis
  proof (cases "qp_valuation y")
    case (Val b)
    have b0: "0 \<le> b" using assms(3) Val by (simp add: qp_int_def)
    have z: "Qp_add x y = Inr (Qp_make p N b (qp_unit y))"
      using assms(2,3,4) vx Val by (simp add: Qp_add_def qp_int_def Let_def)
    have "qp_value x + qp_value y = p ^ nat b * qp_unit y"
      using assms(2,3) vx Val by (simp add: qp_value_def qp_int_def)
    then have "p ^ nat N dvd qp_value (Qp_make p N b (qp_unit y)) - (qp_value x + qp_value y)"
      using assms(1) b0 by (intro Qp_make_value_cong) simp_all
    then show ?thesis using z qp_int_make [OF b0] by simp
  next
    case PosInf
    have z: "Qp_add x y = Inr (Qp_zero p N)"
      using assms(2,3,4) vx PosInf by (simp add: Qp_add_def qp_int_def Let_def)
    have "qp_value x + qp_value y = 0" using vx PosInf by (simp add: qp_value_def)
    then show ?thesis using z qp_int_zero by simp
  qed
qed

lemma Qp_sub_value:
  assumes "2 \<le> p" "qp_int p N1 x" "qp_int p N2 y" "N = min N1 N2"
  shows "\<exists>z. Qp_sub x y = Inr z \<and> qp_int p N z \<and>
           p ^ nat N dvd qp_value z - (qp_value x - qp_value y)"
proof (cases "qp_valuation x")
  case (Val a)
  note vx = Val
  have a0: "0 \<le> a" using assms(2) vx by (simp add: qp_int_def)
  show ?thesis
  proof (cases "qp_valuation y")
    case (Val b)
    have b0: "0 \<le> b" using assms(3) Val by (simp add: qp_int_def)
    let ?v = "min a b"
    let ?s = "qp_unit x * p ^ nat (a - ?v) - qp_unit y * p ^ nat (b - ?v)"
    have v: "0 \<le> ?v" using a0 b0 by simp
    have z: "Qp_sub x y = Inr (Qp_make p N ?v ?s)"
      using assms(2,3,4) vx Val by (simp add: Qp_sub_def qp_int_def Let_def)
    have ex: "nat a = nat ?v + nat (a - ?v)" and ey: "nat b = nat ?v + nat (b - ?v)"
      using a0 b0 by simp_all
    have "qp_value x - qp_value y = qp_unit x * p ^ nat a - qp_unit y * p ^ nat b"
      using assms(2,3) vx Val by (simp add: qp_value_def qp_int_def)
    also have "\<dots> = p ^ nat ?v * ?s"
      by (subst ex, subst ey) (simp only: power_add, simp add: algebra_simps)
    finally have "p ^ nat N dvd qp_value (Qp_make p N ?v ?s) - (qp_value x - qp_value y)"
      using assms(1) v by (intro Qp_make_value_cong) simp_all
    then show ?thesis using z qp_int_make [OF v] by simp
  next
    case PosInf
    have z: "Qp_sub x y = Inr (Qp_make p N a (qp_unit x))"
      using assms(2,3,4) vx PosInf by (simp add: Qp_sub_def qp_int_def Let_def)
    have "qp_value x - qp_value y = p ^ nat a * qp_unit x"
      using assms(2,3) vx PosInf by (simp add: qp_value_def qp_int_def)
    then have "p ^ nat N dvd qp_value (Qp_make p N a (qp_unit x)) - (qp_value x - qp_value y)"
      using assms(1) a0 by (intro Qp_make_value_cong) simp_all
    then show ?thesis using z qp_int_make [OF a0] by simp
  qed
next
  case PosInf
  note vx = PosInf
  show ?thesis
  proof (cases "qp_valuation y")
    case (Val b)
    have b0: "0 \<le> b" using assms(3) Val by (simp add: qp_int_def)
    have z: "Qp_sub x y = Inr (Qp_make p N b (- qp_unit y))"
      using assms(2,3,4) vx Val by (simp add: Qp_sub_def qp_int_def Let_def)
    have "qp_value x - qp_value y = p ^ nat b * (- qp_unit y)"
      using assms(2,3) vx Val by (simp add: qp_value_def qp_int_def)
    then have "p ^ nat N dvd qp_value (Qp_make p N b (- qp_unit y)) - (qp_value x - qp_value y)"
      using assms(1) b0 by (intro Qp_make_value_cong) simp_all
    then show ?thesis using z qp_int_make [OF b0] by simp
  next
    case PosInf
    have z: "Qp_sub x y = Inr (Qp_zero p N)"
      using assms(2,3,4) vx PosInf by (simp add: Qp_sub_def qp_int_def Let_def)
    have "qp_value x - qp_value y = 0" using vx PosInf by (simp add: qp_value_def)
    then show ?thesis using z qp_int_zero by simp
  qed
qed

lemma Qp_sub_high_valuation:
  assumes "is_prime p" "qp_int p N x" "qp_int p N y" "0 \<le> N"
    "p ^ nat N dvd qp_value x - qp_value y"
  shows "\<exists>z. Qp_sub x y = Inr z \<and> val_ge (qp_valuation z) N"
proof (cases "qp_valuation x")
  case (Val a)
  note vx = Val
  have a0: "0 \<le> a" using assms(2) vx by (simp add: qp_int_def)
  show ?thesis
  proof (cases "qp_valuation y")
    case (Val b)
    have b0: "0 \<le> b" using assms(3) Val by (simp add: qp_int_def)
    let ?v = "min a b"
    let ?s = "qp_unit x * p ^ nat (a - ?v) - qp_unit y * p ^ nat (b - ?v)"
    have v: "0 \<le> ?v" using a0 b0 by simp
    have z: "Qp_sub x y = Inr (Qp_make p N ?v ?s)"
      using assms(2,3) vx Val by (simp add: Qp_sub_def qp_int_def Let_def)
    have ex: "nat a = nat ?v + nat (a - ?v)" and ey: "nat b = nat ?v + nat (b - ?v)"
      using a0 b0 by simp_all
    have "qp_value x - qp_value y = qp_unit x * p ^ nat a - qp_unit y * p ^ nat b"
      using assms(2,3) vx Val by (simp add: qp_value_def qp_int_def)
    also have "\<dots> = p ^ nat ?v * ?s"
      by (subst ex, subst ey) (simp only: power_add, simp add: algebra_simps)
    finally have "p ^ nat N dvd p ^ nat ?v * ?s" using assms(5) by simp
    with assms(1) v assms(4) have "val_ge (qp_valuation (Qp_make p N ?v ?s)) N"
      by (rule Qp_make_high_valuation)
    then show ?thesis using z by simp
  next
    case PosInf
    have z: "Qp_sub x y = Inr (Qp_make p N a (qp_unit x))"
      using assms(2,3) vx PosInf by (simp add: Qp_sub_def qp_int_def Let_def)
    have "qp_value x - qp_value y = p ^ nat a * qp_unit x"
      using assms(2,3) vx PosInf by (simp add: qp_value_def qp_int_def)
    then have "p ^ nat N dvd p ^ nat a * qp_unit x" using assms(5) by simp
    with assms(1) a0 assms(4) have "val_ge (qp_valuation (Qp_make p N a (qp_unit x))) N"
      by (rule Qp_make_high_valuation)
    then show ?thesis using z by simp
  qed
next
  case PosInf
  note vx = PosInf
  show ?thesis
  proof (cases "qp_valuation y")
    case (Val b)
    have b0: "0 \<le> b" using assms(3) Val by (simp add: qp_int_def)
    have z: "Qp_sub x y = Inr (Qp_make p N b (- qp_unit y))"
      using assms(2,3) vx Val by (simp add: Qp_sub_def qp_int_def Let_def)
    have "qp_value x - qp_value y = p ^ nat b * (- qp_unit y)"
      using assms(2,3) vx Val by (simp add: qp_value_def qp_int_def)
    then have "p ^ nat N dvd p ^ nat b * (- qp_unit y)" using assms(5) by simp
    with assms(1) b0 assms(4) have "val_ge (qp_valuation (Qp_make p N b (- qp_unit y))) N"
      by (rule Qp_make_high_valuation)
    then show ?thesis using z by simp
  next
    case PosInf
    have z: "Qp_sub x y = Inr (Qp_zero p N)"
      using assms(2,3) vx PosInf by (simp add: Qp_sub_def qp_int_def Let_def)
    then show ?thesis by simp
  qed
qed

lemma Qp_with_precision_value:
  assumes "2 \<le> p" "qp_int p W x" "1 \<le> N"
  shows "\<exists>z. Qp_with_precision x N = Inr z \<and> qp_int p N z \<and>
           p ^ nat N dvd qp_value z - qp_value x"
proof (cases "qp_valuation x")
  case (Val a)
  have a0: "0 \<le> a" using assms(2) Val by (simp add: qp_int_def)
  have z: "Qp_with_precision x N = Inr (Qp_make p N a (qp_unit x))"
    using assms(2,3) Val by (simp add: Qp_with_precision_def qp_int_def)
  have "qp_value x = p ^ nat a * qp_unit x"
    using assms(2) Val by (simp add: qp_value_def qp_int_def)
  then have "p ^ nat N dvd qp_value (Qp_make p N a (qp_unit x)) - qp_value x"
    using assms(1) a0 by (intro Qp_make_value_cong) simp_all
  then show ?thesis using z qp_int_make [OF a0] by simp
next
  case PosInf
  have z: "Qp_with_precision x N = Inr (Qp_zero p N)"
    using assms(2,3) PosInf by (simp add: Qp_with_precision_def qp_int_def)
  have "qp_value x = 0" using PosInf by (simp add: qp_value_def)
  then show ?thesis using z qp_int_zero by simp
qed

subsection \<open>The powers and the terms of the series\<close>

lemma prime_not_dvd_power:
  assumes "is_prime p" "\<not> p dvd a" shows "\<not> p dvd a ^ n"
proof -
  have "coprime a p" using assms by (rule prime_not_dvd_coprime)
  then have "coprime (a ^ n) p" by simp
  with prime_coprime_iff [OF assms(1), of "a ^ n"] show ?thesis by blast
qed

lemma prime_not_dvd_mult:
  assumes "is_prime p" "\<not> p dvd a" "\<not> p dvd b" shows "\<not> p dvd a * b"
proof -
  have "coprime a p" using assms(1,2) by (rule prime_not_dvd_coprime)
  moreover have "coprime b p" using assms(1,3) by (rule prime_not_dvd_coprime)
  ultimately have "coprime (a * b) p" by simp
  with prime_coprime_iff [OF assms(1), of "a * b"] show ?thesis by blast
qed

lemma prime_not_dvd_mod:
  fixes p a :: int
  assumes "1 \<le> N" "\<not> p dvd a" shows "\<not> p dvd a mod p ^ nat N"
proof -
  have "p dvd p ^ nat N" using assms(1) by (intro dvd_power) simp_all
  then have "p dvd a mod p ^ nat N \<longleftrightarrow> p dvd a" by (rule dvd_mod_iff)
  with assms(2) show ?thesis by simp
qed

lemma u_power_at_step:
  assumes "is_prime p" "1 \<le> wp" "\<not> p dvd uu"
  shows "Qp_mul (u_power_at p wp vu uu n)
           \<lparr>qp_prime = p, qp_precision = wp, qp_valuation = Val vu, qp_unit = uu\<rparr>
         = Inr (u_power_at p wp vu uu (Suc n))"
proof -
  have p: "2 \<le> p" using assms(1) by (simp add: is_prime_def)
  let ?P = "p ^ nat wp"
  have nd: "\<not> p dvd (uu ^ n mod ?P) * uu"
    using assms(1) prime_not_dvd_mod [OF assms(2) prime_not_dvd_power [OF assms(1,3)]] assms(3)
    by (rule prime_not_dvd_mult)
  have m: "((uu ^ n mod ?P) * uu) mod ?P = uu ^ Suc n mod ?P"
    by (simp add: mod_mult_right_eq mult.commute)
  have "Qp_mul (u_power_at p wp vu uu n)
           \<lparr>qp_prime = p, qp_precision = wp, qp_valuation = Val vu, qp_unit = uu\<rparr>
      = Inr (Qp_make p wp (int n * vu + vu) ((uu ^ n mod ?P) * uu))"
    by (simp add: Qp_mul_def u_power_at_def)
  also have "Qp_make p wp (int n * vu + vu) ((uu ^ n mod ?P) * uu)
      = u_power_at p wp vu uu (Suc n)"
    unfolding Qp_make_coprime [OF p assms(2) nd] m
    by (simp add: u_power_at_def algebra_simps)
  finally show ?thesis .
qed

lemma series_term:
  assumes "is_prime p" "1 \<le> wp" "1 \<le> vu" "\<not> p dvd uu" "1 \<le> n"
  shows "\<exists>dv T. Qp_new p wp (int n) = Inr dv \<and>
           Qp_div (u_power_at p wp vu uu n) dv = Inr T \<and> qp_int p wp T \<and>
           qp_valuation T = Val (int n * vu - p_adic_valuation (int n) p) \<and>
           p ^ (nat wp + n) dvd int n * qp_value T - (uu * p ^ nat vu) ^ n"
proof -
  have p: "2 \<le> p" using assms(1) by (simp add: is_prime_def)
  let ?P = "p ^ nat wp"
  have P0: "0 < ?P" using p by simp
  have n1: "1 \<le> int n" using assms(5) by simp
  from pval_split [OF n1 assms(1)] obtain e m where
    nm: "int n = p ^ e * m" and m: "\<not> p dvd m" and e: "int e = p_adic_valuation (int n) p"
    and e2: "2 * int e \<le> int n" by blast
  have en: "e \<le> n" using e2 by simp
  have dm: "int n div p ^ e = m" using p nm by simp
  have ek: "nat (p_adic_valuation (int n) p) = e" using e by simp
  let ?dv = "\<lparr>qp_prime = p, qp_precision = wp, qp_valuation = Val (int e), qp_unit = m mod ?P\<rparr>"
  have dv: "Qp_new p wp (int n) = Inr ?dv"
    using p assms(2,5) by (simp add: Qp_new_def Let_def ek dm e [symmetric])
  have mm: "\<not> p dvd m mod ?P" using assms(2) m by (rule prime_not_dvd_mod)
  then have mm0: "m mod ?P \<noteq> 0" by auto
  have "coprime (m mod ?P) p" using assms(1) mm by (rule prime_not_dvd_coprime)
  then have "coprime (m mod ?P) ?P" by simp
  from mod_inverse_coprime [OF P0 this] obtain dinv where
    di: "mod_inverse (m mod ?P) ?P = Inr dinv" "(m mod ?P) * dinv mod ?P = 1 mod ?P" by blast
  have one: "(1::int) mod ?P = 1" using p assms(2) by (intro mod_pos_pos_trivial) (simp_all add: one_less_power)
  have a: "?P dvd m * dinv - 1"
  proof -
    have "(m * dinv) mod ?P = 1 mod ?P" using di(2) by (simp add: mod_mult_left_eq)
    then show ?thesis by (simp add: mod_eq_dvd_iff)
  qed
  have dnd: "\<not> p dvd dinv"
  proof
    assume "p dvd dinv"
    then have "p dvd m * dinv" by simp
    moreover have "p dvd ?P" using assms(2) by (intro dvd_power) simp_all
    then have "p dvd m * dinv - 1" using a by (rule dvd_trans)
    ultimately have "p dvd m * dinv - (m * dinv - 1)" by (rule dvd_diff)
    then show False using p by simp
  qed
  let ?up = "uu ^ n mod ?P"
  have und: "\<not> p dvd ?up"
    using assms(2) prime_not_dvd_power [OF assms(1,4)] by (rule prime_not_dvd_mod)
  have tnd: "\<not> p dvd ?up * dinv" using assms(1) und dnd by (rule prime_not_dvd_mult)
  let ?t = "(?up * dinv) mod ?P"
  let ?v = "int n * vu - int e"
  let ?T = "\<lparr>qp_prime = p, qp_precision = wp, qp_valuation = Val ?v, qp_unit = ?t\<rparr>"
  have nv: "int n \<le> int n * vu" using assms(3) by (simp add: mult_le_cancel_left1)
  have v0: "0 \<le> ?v" using e2 nv by linarith
  have T: "Qp_div (u_power_at p wp vu uu n) ?dv = Inr ?T"
    using mm0 di(1) Qp_make_coprime [OF p assms(2) tnd, of ?v]
    by (simp add: Qp_div_def u_power_at_def Qp_is_zero_def)
  have Ti: "qp_int p wp ?T" using v0 by (simp add: qp_int_def)
  have b: "?P dvd ?t - uu ^ n * dinv"
  proof -
    have "?t mod ?P = (uu ^ n * dinv) mod ?P" by (simp add: mod_mult_left_eq)
    then show ?thesis by (simp only: mod_eq_dvd_iff)
  qed
  have c: "?P dvd m * ?t - uu ^ n"
  proof -
    have "?P dvd m * (?t - uu ^ n * dinv) + uu ^ n * (m * dinv - 1)"
      using a b by (intro dvd_add dvd_mult)
    then show ?thesis by (simp add: algebra_simps)
  qed
  have ex: "nat (int n * vu) = e + nat ?v" using v0 by simp
  have nvu: "nat (int n * vu) = n * nat vu" using assms(3) by (simp add: nat_mult_distrib)
  have "int n * qp_value ?T - (uu * p ^ nat vu) ^ n
      = (p ^ e * m) * (?t * p ^ nat ?v) - uu ^ n * p ^ (n * nat vu)"
    by (simp add: qp_value_def nm power_mult_distrib power_mult [symmetric] mult.commute)
  also have "\<dots> = p ^ (e + nat ?v) * (m * ?t) - uu ^ n * p ^ (n * nat vu)"
    by (simp add: power_add algebra_simps)
  also have "\<dots> = p ^ (n * nat vu) * (m * ?t - uu ^ n)"
  proof -
    have "e + nat ?v = n * nat vu" using ex nvu by simp
    then have "p ^ (e + nat ?v) = p ^ (n * nat vu)" by (rule arg_cong)
    then show ?thesis by (simp only:) (simp add: algebra_simps)
  qed
  finally have eq: "int n * qp_value ?T - (uu * p ^ nat vu) ^ n
      = p ^ (n * nat vu) * (m * ?t - uu ^ n)" .
  have "p ^ (n * nat vu) * ?P dvd p ^ (n * nat vu) * (m * ?t - uu ^ n)"
    using c by (rule mult_dvd_mono [OF dvd_refl])
  then have "p ^ (n * nat vu + nat wp) dvd int n * qp_value ?T - (uu * p ^ nat vu) ^ n"
    by (simp only: eq power_add)
  moreover have "p ^ (nat wp + n) dvd p ^ (n * nat vu + nat wp)"
  proof -
    have "1 \<le> nat vu" using assms(3) by simp
    then have "n * 1 \<le> n * nat vu" by (intro mult_le_mono2)
    then show ?thesis by (intro le_imp_power_dvd) simp
  qed
  ultimately have "p ^ (nat wp + n) dvd int n * qp_value ?T - (uu * p ^ nat vu) ^ n"
    by (rule dvd_trans [rotated])
  then show ?thesis using dv T Ti e by (intro exI [of _ ?dv] exI [of _ ?T]) simp
qed

subsection \<open>The loop of the series\<close>

lemma binomial_sum_Suc:
  "binomial_sum p K U (Suc m) =
     binomial_sum p K U m + int (nat p ^ K choose Suc m) * U ^ Suc m"
  by (simp add: binomial_sum_def)

lemma log_series_invariant:
  fixes p wp vu uu :: int and K T e :: nat
  assumes pr: "is_prime p" and wp: "1 \<le> wp" and vu: "1 \<le> vu" and uu: "\<not> p dvd uu"
    and e: "int e = p_adic_valuation (fact T) p" and K: "nat wp + e \<le> K"
    and tT: "terms \<le> int T" and tv: "wp \<le> (terms + 1) * vu"
  defines "u \<equiv> \<lparr>qp_prime = p, qp_precision = wp, qp_valuation = Val vu, qp_unit = uu\<rparr>"
  defines "U \<equiv> uu * p ^ nat vu"
  shows "k \<le> T \<Longrightarrow> qp_int p wp result \<Longrightarrow>
     p ^ (K + nat wp) dvd binomial_sum p K U k - p ^ K * qp_value result \<Longrightarrow>
     \<exists>r m. log_series (int (Suc k)) terms p wp u result (u_power_at p wp vu uu (Suc k)) = Inr r \<and>
        qp_int p wp r \<and> m \<le> T \<and> wp \<le> int (Suc m) * vu \<and>
        p ^ (K + nat wp) dvd binomial_sum p K U m - p ^ K * qp_value r"
proof (induction "nat (terms + 1 - int (Suc k))" arbitrary: k result rule: less_induct)
  case less
  let ?n = "Suc k"
  let ?up = "u_power_at p wp vu uu ?n"
  have p: "2 \<le> p" using pr by (simp add: is_prime_def)
  show ?case
  proof (cases "int ?n \<le> terms")
    case False
    then have r: "log_series (int ?n) terms p wp u result ?up = Inr result"
      by (subst log_series.simps) simp
    have "terms + 1 \<le> int ?n" using False by simp
    then have "(terms + 1) * vu \<le> int ?n * vu" using vu by (intro mult_right_mono) simp_all
    then have "wp \<le> int ?n * vu" using tv by linarith
    with r less.prems show ?thesis by (intro exI [of _ result] exI [of _ k]) simp
  next
    case True
    have n1: "1 \<le> ?n" by simp
    from series_term [OF pr wp vu uu n1] obtain dv tm where
      dv: "Qp_new p wp (int ?n) = Inr dv" and tm: "Qp_div ?up dv = Inr tm"
      and ti: "qp_int p wp tm"
      and tval: "qp_valuation tm = Val (int ?n * vu - p_adic_valuation (int ?n) p)"
      and tc: "p ^ (nat wp + ?n) dvd int ?n * qp_value tm - U ^ ?n"
      unfolding U_def by blast
    show ?thesis
    proof (cases "wp \<le> int ?n * vu - p_adic_valuation (int ?n) p")
      case brk: True
      have st: "log_step (int ?n) p wp u result ?up = Inr (False, result, ?up)"
        by (simp only: log_step_def dv tm tval ebind_def sum.case val_ge.simps brk if_True)
      have r: "log_series (int ?n) terms p wp u result ?up = Inr result"
        using True by (subst log_series.simps) (simp only: st, simp)
      have "wp \<le> int ?n * vu" using brk pval_nonneg [of "int ?n" p] by linarith
      with r less.prems show ?thesis by (intro exI [of _ result] exI [of _ k]) simp
    next
      case cont: False
      have "\<exists>r1. (if lmod (int ?n) 2 = 1 then Qp_add result tm else Qp_sub result tm) = Inr r1 \<and>
          qp_int p wp r1 \<and>
          p ^ nat wp dvd qp_value r1 - (qp_value result + (- 1) ^ k * qp_value tm)"
      proof (cases "even k")
        case True
        then have "int ?n mod 2 = 1" by presburger
        then have l: "lmod (int ?n) 2 = 1" by (simp add: lmod_nonneg)
        from Qp_add_value [OF p less.prems(2) ti, of wp] show ?thesis
          using True by (simp only: l if_True) simp
      next
        case False
        then have "int ?n mod 2 = 0" by presburger
        then have l: "lmod (int ?n) 2 \<noteq> 1" by (simp add: lmod_nonneg)
        from Qp_sub_value [OF p less.prems(2) ti, of wp] show ?thesis
          using False by (simp only: l if_False) simp
      qed
      then obtain r1 where
        r1: "(if lmod (int ?n) 2 = 1 then Qp_add result tm else Qp_sub result tm) = Inr r1"
        and r1i: "qp_int p wp r1"
        and r1c: "p ^ nat wp dvd qp_value r1 - (qp_value result + (- 1) ^ k * qp_value tm)"
        by blast
      let ?up1 = "u_power_at p wp vu uu (Suc ?n)"
      have up1: "Qp_mul ?up u = Inr ?up1"
        unfolding u_def using pr wp uu by (rule u_power_at_step)
      have upv: "qp_valuation ?up1 = Val (int (Suc ?n) * vu)" by (simp add: u_power_at_def)
      let ?go = "\<not> wp \<le> int (Suc ?n) * vu"
      have st: "log_step (int ?n) p wp u result ?up = Inr (?go, r1, ?up1)"
        by (simp only: log_step_def dv tm tval ebind_def sum.case val_ge.simps cont if_False
            r1 up1 upv)
      have kT: "k < T" using True tT by simp
      have pU: "p dvd U"
      proof -
        have "p dvd p ^ nat vu" using vu by (intro dvd_power) simp_all
        then show ?thesis unfolding U_def by (rule dvd_mult)
      qed
      have c1: "p ^ (K + nat wp) dvd
          int (nat p ^ K choose ?n) * U ^ ?n - p ^ K * ((- 1) ^ k * qp_value tm)"
        using pr pU kT e K tc by (rule series_term_cong)
      have c2: "p ^ K * p ^ nat wp dvd
          p ^ K * (qp_value r1 - (qp_value result + (- 1) ^ k * qp_value tm))"
        using r1c by (rule mult_dvd_mono [OF dvd_refl])
      have inv: "p ^ (K + nat wp) dvd binomial_sum p K U ?n - p ^ K * qp_value r1"
      proof -
        have "binomial_sum p K U ?n - p ^ K * qp_value r1 =
            (binomial_sum p K U k - p ^ K * qp_value result)
            + (int (nat p ^ K choose ?n) * U ^ ?n - p ^ K * ((- 1) ^ k * qp_value tm))
            - p ^ K * (qp_value r1 - (qp_value result + (- 1) ^ k * qp_value tm))"
          by (simp only: binomial_sum_Suc) (simp add: algebra_simps)
        moreover have "p ^ (K + nat wp) dvd
            (binomial_sum p K U k - p ^ K * qp_value result)
            + (int (nat p ^ K choose ?n) * U ^ ?n - p ^ K * ((- 1) ^ k * qp_value tm))
            - p ^ K * (qp_value r1 - (qp_value result + (- 1) ^ k * qp_value tm))"
        proof -
          have c2': "p ^ (K + nat wp) dvd
              p ^ K * (qp_value r1 - (qp_value result + (- 1) ^ k * qp_value tm))"
            using c2 by (simp only: power_add)
          have "p ^ (K + nat wp) dvd
              (binomial_sum p K U k - p ^ K * qp_value result)
              + (int (nat p ^ K choose ?n) * U ^ ?n - p ^ K * ((- 1) ^ k * qp_value tm))"
            using less.prems(3) c1 by (rule dvd_add)
          then show ?thesis using c2' by (rule dvd_diff)
        qed
        ultimately show ?thesis by simp
      qed
      show ?thesis
      proof (cases ?go)
        case False
        have r: "log_series (int ?n) terms p wp u result ?up = Inr r1"
          using True False by (subst log_series.simps) (simp only: st, simp)
        have "wp \<le> int (Suc ?n) * vu" using False by simp
        with r r1i inv kT show ?thesis by (intro exI [of _ r1] exI [of _ ?n]) simp
      next
        case go: True
        have m: "nat (terms + 1 - int (Suc ?n)) < nat (terms + 1 - int ?n)" using True by simp
        have nT: "?n \<le> T" using kT by simp
        from less.hyps [OF m nT r1i inv] obtain r m where
          rm: "log_series (int (Suc ?n)) terms p wp u r1 ?up1 = Inr r" "qp_int p wp r" "m \<le> T"
            "wp \<le> int (Suc m) * vu"
            "p ^ (K + nat wp) dvd binomial_sum p K U m - p ^ K * qp_value r" by blast
        have s: "int ?n + 1 = int (Suc ?n)" by simp
        have "log_series (int ?n) terms p wp u result ?up
            = log_series (int (Suc ?n)) terms p wp u r1 ?up1"
          using True go by (subst log_series.simps) (simp only: st s, simp)
        with rm show ?thesis by (intro exI [of _ r] exI [of _ m]) simp
      qed
    qed
  qed
qed

subsection \<open>Sums of the binomial expansion\<close>

lemma log_series_zero:
  assumes "is_prime p" "1 \<le> wp" "1 \<le> n"
  shows "log_series n terms p wp (Qp_zero p wp) (Qp_zero p wp) (Qp_zero p wp)
         = Inr (Qp_zero p wp)"
proof (cases "n \<le> terms")
  case False
  then show ?thesis by (subst log_series.simps) simp
next
  case True
  have p: "2 \<le> p" using assms(1) by (simp add: is_prime_def)
  have n0: "n \<noteq> 0" using assms(3) by simp
  from Qp_new_nonzero [OF assms(1,2) n0] obtain dv where
    dv: "Qp_new p wp n = Inr dv" "qp_good p wp dv" "qp_unit dv \<noteq> 0" by blast
  have c: "coprime (qp_unit dv) (p ^ nat wp)" using dv(2,3) by (simp add: qp_good_def)
  have m: "0 < p ^ nat wp" using p by simp
  from mod_inverse_coprime [OF m c] obtain d where
    d: "mod_inverse (qp_unit dv) (p ^ nat wp) = Inr d" by blast
  have "Qp_div (Qp_zero p wp) dv = Inr (Qp_zero p wp)"
    using dv(2,3) d by (simp add: Qp_div_def qp_good_def Qp_is_zero_def Qp_zero_def)
  then have st: "log_step n p wp (Qp_zero p wp) (Qp_zero p wp) (Qp_zero p wp)
      = Inr (False, Qp_zero p wp, Qp_zero p wp)"
    by (simp add: log_step_def dv(1) ebind_def)
  show ?thesis using True by (subst log_series.simps) (simp add: st)
qed

lemma log_at_precision_one:
  assumes "Qp_inv x" "is_prime (qp_prime x)" "qp_valuation x = Val 0" "qp_unit x = 1" "1 \<le> wp"
  shows "log_at_precision x wp = Inr (Qp_zero (qp_prime x) (qp_precision x))"
proof -
  let ?p = "qp_prime x" and ?N = "qp_precision x"
  have p: "2 \<le> ?p" and N: "1 \<le> ?N" using assms(1) by (simp_all add: Qp_inv_def)
  have nz: "\<not> Qp_is_zero x" using assms(4) by (simp add: Qp_is_zero_def)
  let ?one = "\<lparr>qp_prime = ?p, qp_precision = wp, qp_valuation = Val 0, qp_unit = 1\<rparr>"
  have one: "Qp_new ?p wp 1 = Inr ?one" using p assms(5) by (rule Qp_new_one)
  have lt: "1 < ?p ^ nat wp" using p assms(5) by (intro one_less_power) simp_all
  have nd: "\<not> ?p dvd 1" using p by simp
  have xw: "Qp_with_precision x wp = Inr ?one"
    using assms(3,4,5) Qp_make_unit [OF _ lt nd, of 0]
    by (simp add: Qp_with_precision_def)
  have u: "Qp_sub ?one ?one = Inr (Qp_zero ?p wp)"
    by (simp add: Qp_sub_def Qp_make_zero)
  have cg: "congruent_one x" using assms(4) p by (simp add: congruent_one_def)
  have c: "check_convergence_condition x = Inr True"
    using check_convergence_condition_eq [OF assms(1) nz assms(3)] cg by simp
  have t: "\<not> compute_required_terms wp PosInf < 1"
    using assms(5) by (simp add: compute_required_terms_def)
  have u2: "Qp_mul (Qp_zero ?p wp) (Qp_zero ?p wp) = Inr (Qp_zero ?p wp)"
    by (simp add: Qp_mul_def Qp_zero_def)
  have s: "log_series 2 (compute_required_terms wp PosInf) ?p wp (Qp_zero ?p wp)
      (Qp_zero ?p wp) (Qp_zero ?p wp) = Inr (Qp_zero ?p wp)"
    using assms(2,5) by (intro log_series_zero) simp_all
  have y: "Qp_with_precision (Qp_zero ?p wp) ?N = Inr (Qp_zero ?p ?N)"
    using N by (simp add: Qp_with_precision_def Qp_zero_def)
  have zv: "qp_valuation (Qp_zero ?p wp) = PosInf" by (simp add: Qp_zero_def)
  show ?thesis
    by (simp only: log_at_precision_def one xw u c ebind_def sum.case Let_def zv t
        if_False u2 s y not_True_eq_False)
qed

lemma sum_tail_dvd:
  fixes f :: "nat \<Rightarrow> int"
  assumes "\<And>j. m < j \<Longrightarrow> d dvd f j"
  shows "m \<le> q \<Longrightarrow> d dvd sum f {1..q} - sum f {1..m}"
proof (induction q rule: dec_induct)
  case base
  show ?case by simp
next
  case (step q)
  have e: "sum f {1..Suc q} - sum f {1..m} = (sum f {1..q} - sum f {1..m}) + f (Suc q)"
    by simp
  have "d dvd f (Suc q)" using step(1) by (intro assms) simp
  with step(3) have "d dvd (sum f {1..q} - sum f {1..m}) + f (Suc q)" by (rule dvd_add)
  then show ?case by (simp only: e)
qed

lemma binomial_sum_power:
  "(U + 1) ^ (nat p ^ K) = 1 + binomial_sum p K U (nat p ^ K)"
proof -
  let ?q = "nat p ^ K"
  have "(U + 1) ^ ?q = (\<Sum>k\<le>?q. int (?q choose k) * U ^ k * 1 ^ (?q - k))"
    by (simp only: binomial_ring [of U 1 ?q] of_nat_id)
  also have "\<dots> = (\<Sum>k = 0..?q. int (?q choose k) * U ^ k)"
    by (simp add: atMost_atLeast0)
  also have "\<dots> = int (?q choose 0) * U ^ 0 + (\<Sum>k = Suc 0..?q. int (?q choose k) * U ^ k)"
    by (rule sum.atLeast_Suc_atMost) simp
  finally show ?thesis by (simp add: binomial_sum_def)
qed

lemma less_prime_power:
  assumes "2 \<le> p" shows "K < nat p ^ K"
proof -
  have "K < 2 ^ K" by (rule less_exp)
  also have "(2::nat) ^ K \<le> nat p ^ K" using assms by (intro power_mono) simp_all
  finally show ?thesis .
qed

subsection \<open>The value of the series at the working precision\<close>

lemma required_terms_bound:
  assumes "1 \<le> wp" "1 \<le> vu"
  shows "1 \<le> compute_required_terms wp (Val vu)"
    and "wp \<le> (compute_required_terms wp (Val vu) + 1) * vu"
proof -
  have te: "compute_required_terms wp (Val vu) = min (wp div vu + 10) (wp * 3)"
    using assms by (simp add: compute_required_terms_def ldiv_nonneg)
  have d0: "0 \<le> wp div vu" using assms by (simp add: pos_imp_zdiv_nonneg_iff)
  show "1 \<le> compute_required_terms wp (Val vu)" using te d0 assms(1) by simp
  have "wp = vu * (wp div vu) + wp mod vu" by simp
  moreover have "wp mod vu < vu" using assms(2) by simp
  ultimately have "wp < vu * (wp div vu) + vu" by linarith
  then have a: "wp \<le> (wp div vu + 10 + 1) * vu" using assms(2) by (simp add: algebra_simps)
  have "wp \<le> (wp * 3 + 1) * 1" using assms(1) by simp
  also have "\<dots> \<le> (wp * 3 + 1) * vu" using assms by (intro mult_left_mono) simp_all
  finally have b: "wp \<le> (wp * 3 + 1) * vu" .
  show "wp \<le> (compute_required_terms wp (Val vu) + 1) * vu"
    using a b by (simp add: te min_def)
qed

lemma log_at_precision_value:
  assumes inv: "Qp_inv x" and pr: "is_prime (qp_prime x)" and v0: "qp_valuation x = Val 0"
    and cg: "congruent_one x" and x1: "qp_unit x \<noteq> 1"
    and c0: "0 \<le> c" and cb: "2 * qp_precision x < qp_prime x ^ Suc (nat c)"
    and wpd: "wp = qp_precision x + c + 5"
  shows "\<exists>l K0. log_at_precision x wp = Inr l \<and> qp_int (qp_prime x) (qp_precision x) l \<and>
           (\<forall>K\<ge>K0. qp_prime x ^ (K + nat (qp_precision x)) dvd
              qp_unit x ^ (nat (qp_prime x) ^ K) - 1 - qp_prime x ^ K * qp_value l)"
proof -
  let ?p = "qp_prime x" and ?N = "qp_precision x" and ?xu = "qp_unit x"
  have p: "2 \<le> ?p" and N: "1 \<le> ?N" and xu: "0 < ?xu" "?xu < ?p ^ nat ?N" "\<not> ?p dvd ?xu"
    using inv v0 by (simp_all add: Qp_inv_def)
  have nz: "\<not> Qp_is_zero x" using xu(1) by (simp add: Qp_is_zero_def)
  have wp1: "1 \<le> wp" and Nwp: "?N \<le> wp" using N c0 by (simp_all add: wpd)
  have pw: "?p ^ nat ?N \<le> ?p ^ nat wp" using p Nwp by (intro power_increasing) simp_all
  have xuw: "?xu < ?p ^ nat wp" using xu(2) pw by linarith
  define r where "r = ?xu - 1"
  have r1: "1 \<le> r" using xu(1) x1 by (simp add: r_def)
  have rw: "r < ?p ^ nat wp" using xuw by (simp add: r_def)
  have pr_dvd: "?p dvd r"
  proof (cases "?p = 2")
    case True
    then have "?xu mod 4 = 1 mod 4" using cg by (simp add: congruent_one_def)
    then have "4 dvd ?xu - 1" by (simp only: mod_eq_dvd_iff)
    moreover have "(2::int) dvd 4" by simp
    ultimately have "2 dvd ?xu - 1" by (rule dvd_trans [rotated])
    with True show ?thesis by (simp add: r_def)
  next
    case False
    then have "?xu mod ?p = 1" using cg by (simp add: congruent_one_def)
    moreover have "1 mod ?p = 1" using p by simp
    ultimately have "?xu mod ?p = 1 mod ?p" by simp
    then show ?thesis unfolding r_def by (simp only: mod_eq_dvd_iff)
  qed
  from pval_split [OF r1 pr] obtain ev m where
    rm: "r = ?p ^ ev * m" and m: "\<not> ?p dvd m" and ev: "int ev = p_adic_valuation r ?p"
    by blast
  have r0: "r \<noteq> 0" using r1 by simp
  have ev1: "1 \<le> ev" using pval_ge_one_iff [OF r0 p] pr_dvd ev by simp
  have pe: "0 < ?p ^ ev" using p by simp
  have m_pos: "0 < m"
  proof (rule ccontr)
    assume "\<not> 0 < m"
    then have "m \<le> 0" by simp
    then have "?p ^ ev * m \<le> 0" using pe by (intro mult_nonneg_nonpos) simp_all
    with rm r1 show False by simp
  qed
  have "1 * m \<le> ?p ^ ev * m" using pe m_pos by (intro mult_right_mono) simp_all
  then have m_le: "m \<le> r" using rm by simp
  then have m_lt: "m < ?p ^ nat wp" using rw by linarith
  have mmod: "m mod ?p ^ nat wp = m" using m_pos m_lt by simp
  have rdiv: "r div ?p ^ ev = m" using p rm by simp
  define vu where "vu = int ev"
  have vu1: "1 \<le> vu" using ev1 by (simp add: vu_def)
  have nvu: "nat vu = ev" by (simp add: vu_def)
  define U where "U = m * ?p ^ nat vu"
  have Ur: "U = r" by (simp add: U_def nvu rm mult.commute)
  let ?one = "\<lparr>qp_prime = ?p, qp_precision = wp, qp_valuation = Val 0, qp_unit = 1\<rparr>"
  let ?xw = "\<lparr>qp_prime = ?p, qp_precision = wp, qp_valuation = Val 0, qp_unit = ?xu\<rparr>"
  let ?u = "\<lparr>qp_prime = ?p, qp_precision = wp, qp_valuation = Val vu, qp_unit = m\<rparr>"
  have one: "Qp_new ?p wp 1 = Inr ?one" using p wp1 by (rule Qp_new_one)
  have xw: "Qp_with_precision x wp = Inr ?xw"
    using v0 wp1 Qp_make_unit [OF xu(1) xuw xu(3), of 0] by (simp add: Qp_with_precision_def)
  have mk: "Qp_make ?p wp 0 r = ?u"
  proof -
    have "r mod ?p ^ nat wp = r" using r1 rw by simp
    then show ?thesis
      using r0 by (simp add: Qp_make_def Let_def ev [symmetric] rdiv vu_def)
  qed
  have u: "Qp_sub ?xw ?one = Inr ?u"
    using mk by (simp add: Qp_sub_def r_def)
  have c: "check_convergence_condition x = Inr True"
    using check_convergence_condition_eq [OF inv nz v0] cg by simp
  define terms where "terms = compute_required_terms wp (Val vu)"
  have t1: "1 \<le> terms" and tv: "wp \<le> (terms + 1) * vu"
    unfolding terms_def using wp1 vu1 by (rule required_terms_bound)+
  have nt: "(terms < 1) = False" using t1 by simp
  define T where "T = nat terms"
  have tT: "terms \<le> int T" and T1: "1 \<le> T" using t1 by (simp_all add: T_def)
  define e where "e = nat (p_adic_valuation (fact T) ?p)"
  have e: "int e = p_adic_valuation (fact T) ?p"
    using pval_nonneg [of "fact T" ?p] by (simp add: e_def)
  define K0 where "K0 = nat wp + e + T"
  have u1: "u_power_at ?p wp vu m (Suc 0) = ?u" by (simp add: u_power_at_def mmod)
  have u2: "Qp_mul ?u ?u = Inr (u_power_at ?p wp vu m 2)"
    using u_power_at_step [OF pr wp1 m, of vu "Suc 0"] by (simp only: u1 numeral_2_eq_2)
  have ui: "qp_int ?p wp ?u" using vu1 by (simp add: qp_int_def)
  have uv: "qp_value ?u = U" by (simp add: qp_value_def U_def)
  have init: "?p ^ (K + nat wp) dvd binomial_sum ?p K U 1 - ?p ^ K * qp_value ?u" for K
    using p by (simp add: binomial_sum_def uv)
  have loop: "\<exists>r m'. log_series 2 terms ?p wp ?u ?u (u_power_at ?p wp vu m 2) = Inr r \<and>
      qp_int ?p wp r \<and> m' \<le> T \<and> wp \<le> int (Suc m') * vu \<and>
      ?p ^ (K + nat wp) dvd binomial_sum ?p K U m' - ?p ^ K * qp_value r"
    if "K0 \<le> K" for K
  proof -
    have K: "nat wp + e \<le> K" using that by (simp add: K0_def)
    from log_series_invariant [OF pr wp1 vu1 m e K tT tv T1 ui]
    show ?thesis using init [of K] by (simp add: U_def numeral_2_eq_2)
  qed
  from loop [of K0] obtain res where
    ser: "log_series 2 terms ?p wp ?u ?u (u_power_at ?p wp vu m 2) = Inr res"
    and ri: "qp_int ?p wp res" by blast
  from Qp_with_precision_value [OF p ri N] obtain l where
    y: "Qp_with_precision res ?N = Inr l" and li: "qp_int ?p ?N l"
    and lc: "?p ^ nat ?N dvd qp_value l - qp_value res" by blast
  have lv: "qp_valuation ?u = Val vu" by simp
  have L: "log_at_precision x wp = Inr l"
    by (simp only: log_at_precision_def one xw u c ebind_def sum.case Let_def lv
        terms_def [symmetric] nt if_False u2 ser y not_True_eq_False)
  have main: "?p ^ (K + nat ?N) dvd ?xu ^ (nat ?p ^ K) - 1 - ?p ^ K * qp_value l"
    if K: "K0 \<le> K" for K
  proof -
    let ?q = "nat ?p ^ K"
    from loop [OF K] ser obtain m' where
      mT: "m' \<le> T" and mw: "wp \<le> int (Suc m') * vu"
      and sm: "?p ^ (K + nat wp) dvd binomial_sum ?p K U m' - ?p ^ K * qp_value res" by auto
    have pU: "?p ^ ev dvd U" by (simp add: Ur rm)
    have tail: "?p ^ (K + nat ?N) dvd int (?q choose j) * U ^ j" if j: "m' < j" for j
    proof -
      have j1: "1 \<le> j" using j by simp
      have "int (Suc m') * vu \<le> int j * vu" using j vu1 by (intro mult_right_mono) simp_all
      then have "?N + c + 5 \<le> int j * vu" using mw by (simp add: wpd)
      then have "?N \<le> int j * vu - p_adic_valuation (int j) ?p"
        using pr N c0 cb _ vu1 by (rule truncation_bound [rotated -1]) (use j1 in simp)
      then have "int (nat ?N) \<le> int j * int ev - p_adic_valuation (int j) ?p"
        using N by (simp add: vu_def)
      with pr pU j1 show ?thesis by (rule series_tail_zero)
    qed
    have "m' \<le> K" using mT K by (simp add: K0_def)
    also have "K < ?q" using p by (rule less_prime_power)
    finally have mq: "m' \<le> ?q" by simp
    have t: "?p ^ (K + nat ?N) dvd binomial_sum ?p K U ?q - binomial_sum ?p K U m'"
      unfolding binomial_sum_def using tail mq by (rule sum_tail_dvd)
    have "?xu = U + 1" by (simp add: Ur r_def)
    then have xq: "?xu ^ ?q = 1 + binomial_sum ?p K U ?q" by (simp only: binomial_sum_power)
    have "?p ^ (K + nat ?N) dvd ?p ^ (K + nat wp)"
      using Nwp by (intro le_imp_power_dvd) simp
    then have s2: "?p ^ (K + nat ?N) dvd binomial_sum ?p K U m' - ?p ^ K * qp_value res"
      using sm by (rule dvd_trans)
    have "?p ^ K * ?p ^ nat ?N dvd ?p ^ K * (qp_value l - qp_value res)"
      using lc by (rule mult_dvd_mono [OF dvd_refl])
    then have s3: "?p ^ (K + nat ?N) dvd ?p ^ K * (qp_value l - qp_value res)"
      by (simp only: power_add)
    have "?p ^ (K + nat ?N) dvd
        (binomial_sum ?p K U ?q - binomial_sum ?p K U m')
        + (binomial_sum ?p K U m' - ?p ^ K * qp_value res)"
      using t s2 by (rule dvd_add)
    then have "?p ^ (K + nat ?N) dvd
        (binomial_sum ?p K U ?q - binomial_sum ?p K U m')
        + (binomial_sum ?p K U m' - ?p ^ K * qp_value res)
        - ?p ^ K * (qp_value l - qp_value res)"
      using s3 by (rule dvd_diff)
    moreover have "?xu ^ ?q - 1 - ?p ^ K * qp_value l =
        (binomial_sum ?p K U ?q - binomial_sum ?p K U m')
        + (binomial_sum ?p K U m' - ?p ^ K * qp_value res)
        - ?p ^ K * (qp_value l - qp_value res)"
      by (simp only: xq) (simp add: algebra_simps)
    ultimately show ?thesis by simp
  qed
  show ?thesis using L li main by blast
qed

subsection \<open>The logarithm as a limit of powers\<close>

lemma log_characterisation:
  assumes "Qp_inv x" "is_prime (qp_prime x)" "in_log_domain x"
  shows "\<exists>l K0. PadicLog_log x = Some (Inr l) \<and> qp_int (qp_prime x) (qp_precision x) l \<and>
           (\<forall>K\<ge>K0. qp_prime x ^ (K + nat (qp_precision x)) dvd
              qp_unit x ^ (nat (qp_prime x) ^ K) - 1 - qp_prime x ^ K * qp_value l)"
proof -
  let ?p = "qp_prime x" and ?N = "qp_precision x"
  have p: "2 \<le> ?p" and N: "1 \<le> ?N" using assms(1) by (simp_all add: Qp_inv_def)
  have nz: "\<not> Qp_is_zero x" and v0: "qp_valuation x = Val 0" and cg: "congruent_one x"
    using assms(3) by (simp_all add: in_log_domain_def)
  from count_p_divides_returns [OF p, of ?p 0 ?N] p obtain c where
    c: "count_p_divides ?p ?p ?N 0 = Some c" "0 \<le> c" by auto
  from count_p_divides_spec [OF p, of 0 ?N c] c(1)
  have cb: "2 * ?N < ?p ^ Suc (nat c)" by simp
  have e: "PadicLog_log x = Some (log_at_precision x (?N + c + 5))"
    using nz v0 c(1) by (simp add: PadicLog_log_def)
  show ?thesis
  proof (cases "qp_unit x = 1")
    case True
    have wp: "1 \<le> ?N + c + 5" using N c(2) by simp
    have "log_at_precision x (?N + c + 5) = Inr (Qp_zero ?p ?N)"
      using assms(1,2) v0 True wp by (rule log_at_precision_one)
    then have P: "PadicLog_log x = Some (Inr (Qp_zero ?p ?N))" using e by simp
    have all: "\<forall>K\<ge>0. ?p ^ (K + nat ?N) dvd
        qp_unit x ^ (nat ?p ^ K) - 1 - ?p ^ K * qp_value (Qp_zero ?p ?N)"
      using True by simp
    have qz: "qp_int ?p ?N (Qp_zero ?p ?N)" by (rule qp_int_zero)
    show ?thesis by (intro exI [of _ "Qp_zero ?p ?N"] exI [of _ 0] conjI P qz all)
  next
    case False
    from log_at_precision_value [OF assms(1,2) v0 cg False c(2) cb refl]
    obtain l K0 where l: "log_at_precision x (?N + c + 5) = Inr l" "qp_int ?p ?N l"
      "\<forall>K\<ge>K0. ?p ^ (K + nat ?N) dvd qp_unit x ^ (nat ?p ^ K) - 1 - ?p ^ K * qp_value l"
      by blast
    have P: "PadicLog_log x = Some (Inr l)" using e l(1) by simp
    show ?thesis by (intro exI [of _ l] exI [of _ K0] conjI P l(2,3))
  qed
qed

lemma product_in_domain:
  assumes "Qp_inv x" "Qp_inv y" "is_prime (qp_prime x)" "qp_prime y = qp_prime x"
    "in_log_domain x" "in_log_domain y"
  defines "M \<equiv> min (qp_precision x) (qp_precision y)"
  defines "z \<equiv> (qp_unit x * qp_unit y) mod qp_prime x ^ nat M"
  defines "xy \<equiv> \<lparr>qp_prime = qp_prime x, qp_precision = M, qp_valuation = Val 0, qp_unit = z\<rparr>"
  shows "Qp_mul x y = Inr xy" "Qp_inv xy" "in_log_domain xy"
proof -
  let ?p = "qp_prime x"
  have p: "2 \<le> ?p" and Nx: "1 \<le> qp_precision x" and Ny: "1 \<le> qp_precision y"
    using assms(1,2) by (simp_all add: Qp_inv_def)
  have vx: "qp_valuation x = Val 0" and vy: "qp_valuation y = Val 0"
    and cx: "congruent_one x" and cy: "congruent_one y"
    using assms(5,6) by (simp_all add: in_log_domain_def)
  have ux: "\<not> ?p dvd qp_unit x" and uy: "\<not> ?p dvd qp_unit y"
    using assms(1,2,4) vx vy by (simp_all add: Qp_inv_def)
  have M: "1 \<le> M" using Nx Ny by (simp add: M_def)
  have nd: "\<not> ?p dvd qp_unit x * qp_unit y" using assms(3) ux uy by (rule prime_not_dvd_mult)
  show m: "Qp_mul x y = Inr xy"
    using assms(4) vx vy Qp_make_coprime [OF p M nd, of 0]
    by (simp add: Qp_mul_def xy_def z_def M_def)
  have zn: "\<not> ?p dvd z" unfolding z_def using M nd by (rule prime_not_dvd_mod)
  then have z0: "z \<noteq> 0" by auto
  have P: "0 < ?p ^ nat M" using p by simp
  have zr: "0 \<le> z" "z < ?p ^ nat M" using P by (simp_all add: z_def)
  show "Qp_inv xy" using p M zn z0 zr by (simp add: Qp_inv_def xy_def)
  have "congruent_one xy"
  proof (cases "?p = 2")
    case True
    have x4: "qp_unit x mod 4 = 1" and y4: "qp_unit y mod 4 = 1"
      using cx cy True assms(4) by (simp_all add: congruent_one_def)
    have "z mod 4 = 1"
    proof (cases "M = 1")
      case M1: True
      then have "z < 2" using zr(2) True by simp
      with zr(1) z0 have "z = 1" by simp
      then show ?thesis by simp
    next
      case False
      with M have "2 \<le> nat M" by simp
      then have "(2::int) ^ 2 dvd 2 ^ nat M" by (rule le_imp_power_dvd)
      then have "4 dvd ?p ^ nat M" using True by simp
      then have "z mod 4 = (qp_unit x * qp_unit y) mod 4"
        unfolding z_def by (rule mod_mod_cancel)
      also have "\<dots> = ((qp_unit x mod 4) * (qp_unit y mod 4)) mod 4"
        by (simp add: mod_mult_eq)
      finally show ?thesis by (simp add: x4 y4)
    qed
    then show ?thesis using True by (simp add: congruent_one_def xy_def)
  next
    case False
    have xp: "qp_unit x mod ?p = 1" and yp: "qp_unit y mod ?p = 1"
      using cx cy False assms(4) by (simp_all add: congruent_one_def)
    have "?p dvd ?p ^ nat M" using M by (intro dvd_power) simp_all
    then have "z mod ?p = (qp_unit x * qp_unit y) mod ?p"
      unfolding z_def by (rule mod_mod_cancel)
    also have "\<dots> = ((qp_unit x mod ?p) * (qp_unit y mod ?p)) mod ?p"
      by (simp add: mod_mult_eq)
    finally have "z mod ?p = 1" using p by (simp add: xp yp)
    then show ?thesis using False by (simp add: congruent_one_def xy_def)
  qed
  then show "in_log_domain xy" using z0 by (simp add: in_log_domain_def xy_def Qp_is_zero_def)
qed

declare Qp_make_sel [simp del] Qp_zero_sel [simp del]

section \<open>Precision and range of the ring operations\<close>

text \<open>
  Claim C4. For \<open>Zp\<close> values \<open>x\<close>, \<open>y\<close> with the same prime and precisions
  \<open>N\<^sub>x\<close>, \<open>N\<^sub>y\<close>, each of \<open>x + y\<close>, \<open>x - y\<close> and \<open>x * y\<close> is returned without
  error, has precision \<open>min N\<^sub>x N\<^sub>y\<close> and an integer representative in the canonical
  range \<open>[0, p^(min N\<^sub>x N\<^sub>y))\<close>.
\<close>

theorem Zp_ring_ops_precision_range:
  assumes "Zp_inv x" "Zp_inv y" "zp_prime x = zp_prime y"
  shows "canonical_result (zp_prime x) (min (zp_precision x) (zp_precision y)) (Zp_add x y) \<and>
         canonical_result (zp_prime x) (min (zp_precision x) (zp_precision y)) (Zp_sub x y) \<and>
         canonical_result (zp_prime x) (min (zp_precision x) (zp_precision y)) (Zp_mul x y)"
proof -
  have p: "0 < zp_prime x ^ nat (min (zp_precision x) (zp_precision y))"
    using assms(1) by (simp add: Zp_inv_def)
  show ?thesis
    using p by (simp add: canonical_result_def Zp_add_value [OF assms]
        Zp_sub_value [OF assms] Zp_mul_value [OF assms])
qed

theorem Zp_ring_ops_precision_range_witness:
  "Zp_inv \<lparr>zp_prime = 5, zp_precision = 3, zp_value = 57\<rparr> \<and>
   Zp_inv \<lparr>zp_prime = 5, zp_precision = 2, zp_value = 24\<rparr> \<and>
   canonical_result 5 2 (Zp_add \<lparr>zp_prime = 5, zp_precision = 3, zp_value = 57\<rparr>
                                \<lparr>zp_prime = 5, zp_precision = 2, zp_value = 24\<rparr>) \<and>
   canonical_result 5 2 (Zp_sub \<lparr>zp_prime = 5, zp_precision = 3, zp_value = 57\<rparr>
                                \<lparr>zp_prime = 5, zp_precision = 2, zp_value = 24\<rparr>) \<and>
   canonical_result 5 2 (Zp_mul \<lparr>zp_prime = 5, zp_precision = 3, zp_value = 57\<rparr>
                                \<lparr>zp_prime = 5, zp_precision = 2, zp_value = 24\<rparr>)"
proof -
  have a: "Zp_inv \<lparr>zp_prime = 5, zp_precision = 3, zp_value = 57\<rparr>"
    by (simp add: Zp_inv_def bpow_def)
  have b: "Zp_inv \<lparr>zp_prime = 5, zp_precision = 2, zp_value = 24\<rparr>"
    by (simp add: Zp_inv_def bpow_def)
  show ?thesis
    using a b Zp_ring_ops_precision_range [OF a b] by simp
qed

section \<open>Rational construction\<close>

lemma strip_prime_not_dvd: "\<not> p dvd d \<Longrightarrow> strip_prime d p = Some d"
  by (subst strip_prime.simps) (simp add: is_divisible_by_def)

lemma coprime_not_dvd:
  assumes "2 \<le> p" "coprime b p" shows "\<not> p dvd (b::int)"
proof
  assume "p dvd b"
  then have "p dvd gcd b p" by simp
  then have "p dvd 1" using assms(2) by (simp add: coprime_iff_gcd_eq_1)
  then show False using assms(1) by simp
qed

lemma from_rational_coprime:
  assumes "2 \<le> p" "1 \<le> N" "coprime b p"
  obtains dinv where "(b * dinv) mod (p ^ nat N) = 1"
    "from_rational a b p N =
       Some (Inr \<lparr>zp_prime = p, zp_precision = N, zp_value = (a * dinv) mod (p ^ nat N)\<rparr>)"
proof -
  let ?m = "p ^ nat N"
  have m: "1 < ?m" using assms(1,2) by (intro one_less_power) simp_all
  have b0: "b \<noteq> 0" using assms(1,3) by auto
  have s: "strip_prime b p = Some b"
    using coprime_not_dvd [OF assms(1,3)] by (rule strip_prime_not_dvd)
  have c: "coprime b ?m" using assms(3) by simp
  from m have m0: "0 < ?m" by linarith
  from mod_inverse_coprime [OF m0 c] obtain dinv where
    i: "mod_inverse b ?m = Inr dinv" "(b * dinv) mod ?m = 1 mod ?m" by blast
  from i(2) m have "(b * dinv) mod ?m = 1" by simp
  moreover have "from_rational a b p N =
       Some (Inr \<lparr>zp_prime = p, zp_precision = N, zp_value = (a * dinv) mod ?m\<rparr>)"
    using b0 s i(1) by (simp add: from_rational_def bpow_def Zp_new_bmod [OF assms(1,2)])
  ultimately show thesis using that by blast
qed

text \<open>
  Claim C8, as amended. For all integers \<open>a\<close> and \<open>b\<close> with \<open>b \<noteq> 0\<close> and
  \<open>b\<close> coprime to \<open>p\<close> (for a prime \<open>p\<close>: \<open>p\<close> does not divide \<open>b\<close>), and
  \<open>p \<ge> 2\<close>, \<open>N \<ge> 1\<close>: \<open>from_rational(a, b, p, N)\<close> returns a value, and that
  value multiplied by \<open>Zp(p, N, b)\<close> equals \<open>Zp(p, N, a)\<close>.
\<close>

theorem from_rational_recovers_numerator:
  assumes "2 \<le> p" "1 \<le> N" "b \<noteq> 0" "coprime b p"
  shows "recovers_numerator a b p N"
proof -
  let ?m = "p ^ nat N"
  from from_rational_coprime [OF assms(1,2,4), of a] obtain dinv where
    i: "(b * dinv) mod ?m = 1"
    and f: "from_rational a b p N =
       Some (Inr \<lparr>zp_prime = p, zp_precision = N, zp_value = (a * dinv) mod ?m\<rparr>)"
    by blast
  let ?q = "\<lparr>zp_prime = p, zp_precision = N, zp_value = (a * dinv) mod ?m\<rparr>"
  let ?zb = "\<lparr>zp_prime = p, zp_precision = N, zp_value = b mod ?m\<rparr>"
  have m0: "0 < ?m" using assms(1) by simp
  have iq: "Zp_inv ?q" and ib: "Zp_inv ?zb"
    using assms(1,2) m0 by (simp_all add: Zp_inv_def bpow_def)
  have "((a * dinv) mod ?m) * (b mod ?m) mod ?m = (a * (b * dinv)) mod ?m"
    by (simp add: mod_mult_eq mult.assoc mult.left_commute mult.commute)
  also have "\<dots> = (a * ((b * dinv) mod ?m)) mod ?m"
    by (simp only: mod_mult_right_eq)
  also have "\<dots> = a mod ?m" using i by simp
  finally have v: "((a * dinv) mod ?m) * (b mod ?m) mod ?m = a mod ?m" .
  have "Zp_mul ?q ?zb = Inr \<lparr>zp_prime = p, zp_precision = N, zp_value = a mod ?m\<rparr>"
    using Zp_mul_value [OF iq ib] v by simp
  then show ?thesis
    by (simp add: recovers_numerator_def f Zp_new_ok [OF assms(1,2)])
qed

theorem from_rational_recovers_numerator_witness:
  "(2::int) \<le> 5 \<and> (1::int) \<le> 4 \<and> (3::int) \<noteq> 0 \<and> coprime (3::int) 5 \<and>
   recovers_numerator 2 3 5 4"
proof -
  have c: "coprime (3::int) 5" by code_simp
  show ?thesis
    using c from_rational_recovers_numerator [of 5 4 3 2] by simp
qed

text \<open>
  The claim as stated, for every \<open>b \<noteq> 0\<close>, fails when \<open>p\<close> divides \<open>b\<close>:
  \<open>from_rational(1, 5, 5, 3)\<close> strips the denominator to 1 and returns 1, and
  \<open>1 * 5 = 5 \<noteq> 1\<close> modulo \<open>5^3\<close>.
\<close>

theorem from_rational_divisible_denominator_counterexample:
  "\<not> recovers_numerator 1 5 5 3"
  by (simp add: recovers_numerator_def from_rational_def strip_prime.simps
      is_divisible_by_def bquot_def bpow_def mod_inverse_def xgcd.simps Zp_new_def
      normalize_value_def bmod_def Zp_mul_def Let_def)

section \<open>Square roots\<close>

text \<open>
  Claim C7 says that for \<open>p = 2\<close> every unit \<open>x \<equiv> 1 (mod 8)\<close> has a square
  root returned by \<open>sqrt\<close>, with \<open>r * r = x\<close> to the full precision. The code at
  \<open>x = 9\<close>, \<open>p = 2\<close>, \<open>N = 4\<close>: the checks pass (\<open>9\<close> is odd and
  \<open>9 mod 8 = 1\<close>), the lifting starts from the root 1, and at \<open>k = 3\<close> the
  residual \<open>(1 - 9) mod 16 = -8\<close> is not zero, so the step asks for the inverse of
  \<open>2 * root\<close> modulo \<open>p = 2\<close>, which does not exist: \<open>sqrt\<close> leaves with an
  error although \<open>3 * 3 = 9\<close>.
\<close>

theorem Zp_sqrt_two_adic_nine_fails:
  "Zp_sqrt \<lparr>zp_prime = 2, zp_precision = 4, zp_value = 9\<rparr> = Some (Inl DomainError)"
  by (simp add: Zp_sqrt_def is_unit_def is_divisible_by_def bmod_def initial_root_def
      hensel_lift.simps bpow_def mod_inverse_def xgcd.simps)

section \<open>The value of a character\<close>

text \<open>
  Claim C3 says that \<open>evaluate_at(a)\<close> returns 0 when \<open>gcd(a, n) > 1\<close> and
  otherwise the exponent \<open>Sum e\<^sub>i * x\<^sub>i mod L\<close>, for the generator decomposition
  \<open>(x\<^sub>1, ..., x\<^sub>r)\<close> of \<open>a\<close> and \<open>L\<close> the least common multiple of the orders
  \<open>m\<^sub>i\<close> with \<open>e\<^sub>i \<noteq> 0\<close>. The code at the character
  \<open>DirichletCharacter(5, 7, {2})\<close> and \<open>a = 3\<close>: 3 is coprime to 5, its generator
  decomposition is \<open>x = 3\<close> (\<open>2^3 = 8 = 3 (mod 5)\<close>), the claimed value is
  \<open>2 * 3 mod 4 = 2\<close>, and the loop of \<open>evaluate_at\<close> forms
  \<open>pow_mod(2, 3, 4) = 0\<close>: the code returns 0, the value of the arguments that are
  not coprime to the modulus, on a unit.
\<close>

theorem evaluate_at_unit_returns_zero:
  "character_of_values 5 7 [2] = Some (Inr chi5) \<and>
   gcd 3 (modulus chi5) = 1 \<and>
   generator_decomposition chi5 3 [3] \<and>
   claimed_exponent chi5 [3] = 2 \<and>
   evaluate_at chi5 3 = 0"
  by code_simp

section \<open>The per-character value cache\<close>

lemma evaluate_cyclotomic_hit:
  "value_cache n = Some v \<Longrightarrow>
   evaluate_cyclotomic ops chi value_cache n N = (Inr v, value_cache)"
  by (simp add: evaluate_cyclotomic_def)

lemma evaluate_cyclotomic_keeps:
  assumes "value_cache a = Some v"
  shows "snd (evaluate_cyclotomic ops chi value_cache n N) a = Some v"
proof (cases "value_cache n")
  case None
  then have "n \<noteq> a" using assms by auto
  then show ?thesis using None assms
    by (simp add: evaluate_cyclotomic_def Let_def split: sum.splits)
next
  case (Some w)
  then show ?thesis using assms by (simp add: evaluate_cyclotomic_def)
qed

lemma run_calls_keeps:
  "value_cache a = Some v \<Longrightarrow> run_calls ops chi value_cache calls a = Some v"
proof (induction calls arbitrary: value_cache)
  case Nil
  then show ?case by simp
next
  case (Cons c calls)
  obtain n N where c: "c = (n, N)" by (cases c)
  show ?case
    unfolding c run_calls.simps
    by (rule Cons.IH) (simp add: evaluate_cyclotomic_keeps Cons.prems)
qed

lemma evaluate_cyclotomic_stores:
  assumes "evaluate_at chi a \<noteq> 0"
    and "evaluate_cyclotomic ops chi cache0 a N1 = (Inr v, cache1)"
  shows "cache1 a = Some v"
proof (cases "cache0 a")
  case None
  with assms show ?thesis
    by (auto simp add: evaluate_cyclotomic_def Let_def split: sum.splits)
next
  case (Some w)
  with assms(2) show ?thesis by (simp add: evaluate_cyclotomic_def)
qed

lemma chi5_facts:
  "evaluate_at chi5 2 = 2" "get_order chi5 = 1" "evaluate_at chi5 5 = 0" "chi_prime chi5 = 7"
  by code_simp+

lemma Qp_new_7_one:
  "Qp_new 7 N 1 = (if N < 1 then Inl InvalidArgument else
     Inr \<lparr>qp_prime = 7, qp_precision = N, qp_valuation = Val 0, qp_unit = 1 mod 7 ^ nat N\<rparr>)"
  by (simp add: Qp_new_def p_adic_valuation.simps)

lemma chi5_first_call:
  "evaluate_cyclotomic symbolic_ops chi5 Map.empty 2 3 =
     (Inr (((\<lambda>r. CycMul r (CycZeta 7 3)) ^^ 12)
        (CycOfQp 7 3 \<lparr>qp_prime = 7, qp_precision = 3, qp_valuation = Val 0, qp_unit = 1\<rparr>)),
      [2 \<mapsto> ((\<lambda>r. CycMul r (CycZeta 7 3)) ^^ 12)
        (CycOfQp 7 3 \<lparr>qp_prime = 7, qp_precision = 3, qp_valuation = Val 0, qp_unit = 1\<rparr>)])"
  by (simp add: evaluate_cyclotomic_def chi5_facts Qp_new_7_one symbolic_ops_def bquot_def
      lmul_def wrap_long_def Let_def)

text \<open>
  Claim C10, as amended. For a fixed character and an argument \<open>a\<close> with
  \<open>evaluate_at(a) \<noteq> 0\<close>: once a call \<open>evaluate_cyclotomic(a, N\<^sub>1)\<close> has returned a
  value, every later call \<open>evaluate_cyclotomic(a, N\<^sub>2)\<close>, after any further calls
  on the same character, returns that same value for every requested precision
  \<open>N\<^sub>2\<close> and leaves the cache as it is: the cache is keyed by \<open>a\<close> alone.
\<close>

theorem evaluate_cyclotomic_cached_value:
  assumes "evaluate_at chi a \<noteq> 0"
    and "evaluate_cyclotomic ops chi cache0 a N1 = (Inr v, cache1)"
  shows "evaluate_cyclotomic ops chi (run_calls ops chi cache1 calls) a N2 =
         (Inr v, run_calls ops chi cache1 calls)"
proof -
  have "cache1 a = Some v" using assms by (rule evaluate_cyclotomic_stores)
  then have "run_calls ops chi cache1 calls a = Some v" by (rule run_calls_keeps)
  then show ?thesis by (rule evaluate_cyclotomic_hit)
qed

theorem evaluate_cyclotomic_cached_value_witness:
  "evaluate_at chi5 2 \<noteq> 0 \<and>
   fst (evaluate_cyclotomic symbolic_ops chi5 Map.empty 2 3) =
     Inr (((\<lambda>r. CycMul r (CycZeta 7 3)) ^^ 12)
        (CycOfQp 7 3 \<lparr>qp_prime = 7, qp_precision = 3, qp_valuation = Val 0, qp_unit = 1\<rparr>)) \<and>
   fst (evaluate_cyclotomic symbolic_ops chi5
      (run_calls symbolic_ops chi5 (snd (evaluate_cyclotomic symbolic_ops chi5 Map.empty 2 3))
         [(3, 4), (2, 5)]) 2 8) =
     Inr (((\<lambda>r. CycMul r (CycZeta 7 3)) ^^ 12)
        (CycOfQp 7 3 \<lparr>qp_prime = 7, qp_precision = 3, qp_valuation = Val 0, qp_unit = 1\<rparr>))"
  using evaluate_cyclotomic_cached_value
    [of chi5 2 symbolic_ops Map.empty 3 _ _ "[(3, 4), (2, 5)]" 8, OF _ chi5_first_call]
  by (simp add: chi5_facts chi5_first_call)

text \<open>
  The claim as stated, for every argument, fails where \<open>evaluate_at(a) = 0\<close>:
  that branch returns the zero element built at the requested precision and stores
  nothing. For \<open>chi5\<close> and \<open>a = 5\<close> the call with \<open>N\<^sub>1 = 3\<close> leaves the cache
  empty, and the later call with \<open>N\<^sub>2 = 4\<close> returns \<open>Cyclotomic(7, 4)\<close>, not the
  \<open>Cyclotomic(7, 3)\<close> of the first call.
\<close>

theorem evaluate_cyclotomic_zero_not_cached_counterexample:
  "evaluate_at chi5 5 = 0 \<and>
   evaluate_cyclotomic symbolic_ops chi5 Map.empty 5 3 = (Inr (CycZero 7 3), Map.empty) \<and>
   evaluate_cyclotomic symbolic_ops chi5 Map.empty 5 4 = (Inr (CycZero 7 4), Map.empty) \<and>
   CycZero 7 4 \<noteq> CycZero 7 3"
  by (simp add: evaluate_cyclotomic_def chi5_facts symbolic_ops_def)

section \<open>The memo cache of the L-function\<close>

lemma chi7_built:
  "character_of_values 7 5 [1] = Some (Inr chi7_1)"
  "character_of_values 7 5 [5] = Some (Inr chi7_5)"
  by code_simp+

lemma chi7_5_values:
  "evaluate_at chi7_5 1 = 1" "evaluate_at chi7_5 2 = 1" "evaluate_at chi7_5 3 = 5"
  "evaluate_at chi7_5 4 = 1" "evaluate_at chi7_5 5 = 5" "evaluate_at chi7_5 6 = 5"
  "evaluate_at chi7_5 7 = 0"
  by code_simp+

lemma chi7_1_values: "evaluate_at chi7_1 2 = 1" "evaluate_at chi7_1 5 = 1"
  by code_simp+

lemma evaluate_chi7_5:
  "evaluate chi7_5 a 2 =
     Inr \<lparr>zp_prime = 5, zp_precision = 2,
          zp_value = (if evaluate_at chi7_5 a = 1 then 1 else 0)\<rparr>"
  if "evaluate_at chi7_5 a \<in> {0, 1, 5}"
proof -
  have p: "chi_prime chi7_5 = 5" by (simp add: chi7_5_def)
  show ?thesis using that
    by (auto simp add: evaluate_def p Zp_new_ok ebind_def Zp_teichmuller_def
        teichmuller_character_def bpow_mod_def)
qed

lemma B1_chi7_5: "compute_B1_chi chi7_5 2 =
   Inr \<lparr>qp_prime = 5, qp_precision = 2, qp_valuation = Val 0, qp_unit = 1\<rparr>"
proof -
  have p: "chi_prime chi7_5 = 5" "conductor chi7_5 = 7" "\<not> is_principal chi7_5"
    by (simp_all add: chi7_5_def is_principal_def)
  have u: "[1 .. 7] = [1, 2, 3, 4, 5, 6, 7::int]" by (simp add: upto.simps)
  have i: "mod_inverse 2 25 = Inr 13"
    by (simp add: mod_inverse_def xgcd.simps)
  have g: "gcd (1::int) 7 = 1" "gcd (2::int) 7 = 1" "gcd (3::int) 7 = 1" "gcd (4::int) 7 = 1"
    "gcd (5::int) 7 = 1" "gcd (6::int) 7 = 1" "gcd (7::int) 7 = 7"
    by code_simp+
  have s: "fold (B1_step chi7_5 2) [1 .. conductor chi7_5] (Qp_new (chi_prime chi7_5) 2 0)
      = Inr \<lparr>qp_prime = 5, qp_precision = 2, qp_valuation = Val 0, qp_unit = 7\<rparr>"
    by (simp add: B1_step_def p u g ebind_def evaluate_chi7_5 chi7_5_values Qp_of_Zp_01
        Qp_new_def pval_not_dvd Qp_mul_def Qp_add_def Qp_zero_def Qp_make_def Let_def)
  have d: "Qp_div \<lparr>qp_prime = 5, qp_precision = 2, qp_valuation = Val 0, qp_unit = 7\<rparr>
             \<lparr>qp_prime = 5, qp_precision = 2, qp_valuation = Val 0, qp_unit = 7\<rparr>
      = Inr \<lparr>qp_prime = 5, qp_precision = 2, qp_valuation = Val 0, qp_unit = 1\<rparr>"
    by (simp add: Qp_div_def Qp_is_zero_def mod_inverse_def xgcd.simps Qp_make_def
        pval_not_dvd)
  show ?thesis
    by (simp only: compute_B1_chi_def p(3) if_False s)
       (simp add: p ebind_def Qp_new_def pval_not_dvd d)
qed


lemma euler_chi7_5: "compute_euler_factor chi7_5 1 2 =
   Inr \<lparr>qp_prime = 5, qp_precision = 2, qp_valuation = Val 0, qp_unit = 1\<rparr>"
proof -
  have p: "chi_prime chi7_5 = 5" "conductor chi7_5 = 7"
    by (simp_all add: chi7_5_def)
  show ?thesis
    by (simp add: compute_euler_factor_def p ebind_def Qp_new_def pval_not_dvd bmod_def
        evaluate_chi7_5 chi7_5_values Qp_of_Zp_01 bpow_def Qp_mul_def Qp_zero_def
        Qp_make_zero [unfolded Qp_zero_def] Qp_sub_def Qp_make_unit)
qed

lemma value_chi7_5: "compute_value ext 0 chi7_5 2 =
   Inr \<lparr>qp_prime = 5, qp_precision = 2, qp_valuation = Val 0, qp_unit = 24\<rparr>"
proof -
  have p: "chi_prime chi7_5 = 5" by (simp add: chi7_5_def)
  have n: "Qp_neg \<lparr>qp_prime = 5, qp_precision = 2, qp_valuation = Val 0, qp_unit = 1\<rparr>
      = \<lparr>qp_prime = 5, qp_precision = 2, qp_valuation = Val 0, qp_unit = 24\<rparr>"
    by (simp add: Qp_neg_def Qp_is_zero_def Qp_make_def pval_not_dvd)
  show ?thesis
    by (simp add: compute_value_def p Qp_new_def ebind_def B1_chi7_5 euler_chi7_5 n
        Qp_mul_def Qp_make_unit)
qed

lemma evaluate_chi7_1: "evaluate chi7_1 5 2 = Inr \<lparr>zp_prime = 5, zp_precision = 2, zp_value = 1\<rparr>"
proof -
  have p: "chi_prime chi7_1 = 5" by (simp add: chi7_1_def)
  show ?thesis
    by (simp add: evaluate_def p chi7_1_values Zp_new_ok ebind_def Zp_teichmuller_def
        teichmuller_character_def bpow_mod_def)
qed

lemma value_chi7_1: "compute_value ext 0 chi7_1 2 = Inr (Qp_zero 5 2)"
proof -
  have p: "chi_prime chi7_1 = 5" "conductor chi7_1 = 7" "is_principal chi7_1"
    by (simp_all add: chi7_1_def is_principal_def)
  have i: "mod_inverse 2 (5 ^ 2) = Inr 13"
    by (simp add: mod_inverse_def xgcd.simps)
  have b: "compute_B1_chi chi7_1 2 =
      Inr \<lparr>qp_prime = 5, qp_precision = 2, qp_valuation = Val 0, qp_unit = 12\<rparr>"
    using i by (simp add: compute_B1_chi_def p Qp_from_rational_def pval_not_dvd)
  have e: "compute_euler_factor chi7_1 1 2 = Inr (Qp_zero 5 2)"
    by (simp add: compute_euler_factor_def p ebind_def Qp_new_def pval_not_dvd bmod_def
        evaluate_chi7_1 Qp_of_Zp_01 bpow_def Qp_mul_def Qp_sub_def Qp_make_unit Qp_make_zero)
  have z: "Qp_neg (Qp_zero 5 2) = Qp_zero 5 2"
    by (simp add: Qp_neg_def Qp_zero_def Qp_make_zero [unfolded Qp_zero_def] Qp_is_zero_def)
  show ?thesis
    by (simp add: compute_value_def p Qp_new_def ebind_def b e z Qp_mul_def)
       (simp add: Qp_zero_def Qp_make_zero [unfolded Qp_zero_def])
qed

lemma chi7_keys:
  "cache_key 0 chi7_1 2 = (0, 7, 1, 5, 2)" "cache_key 0 chi7_5 2 = (0, 7, 1, 5, 2)"
  by (simp_all add: cache_key_def chi7_1_values chi7_5_values)
     (simp_all add: chi7_1_def chi7_5_def)

text \<open>
  Claim C2 says that \<open>kubota_leopoldt(s, chi, N)\<close> returns the same value whatever
  was evaluated before, and that two distinct characters with the same modulus,
  conductor and prime never retrieve each other's cached entry. The code keys the
  cache by \<open>chi.evaluate_at(2)\<close>: the characters \<open>DirichletCharacter(7, 5, {1})\<close>
  and \<open>DirichletCharacter(7, 5, {5})\<close> are distinct, share modulus 7, conductor 7,
  prime 5 and the value 1 at 2, so they share the key \<open>(0, 7, 1, 5, 2)\<close>. On an
  empty cache \<open>kubota_leopoldt(0, chi7_5, 2)\<close> returns \<open>-1\<close> (unit 24 modulo 25);
  after \<open>kubota_leopoldt(0, chi7_1, 2)\<close> it returns the 0 cached for \<open>chi7_1\<close>.
\<close>

theorem kubota_leopoldt_cache_collision:
  "character_of_values 7 5 [1] = Some (Inr chi7_1) \<and>
   character_of_values 7 5 [5] = Some (Inr chi7_5) \<and>
   chi7_1 \<noteq> chi7_5 \<and>
   modulus chi7_1 = modulus chi7_5 \<and> conductor chi7_1 = conductor chi7_5 \<and>
   chi_prime chi7_1 = chi_prime chi7_5 \<and>
   cache_key 0 chi7_1 2 = cache_key 0 chi7_5 2 \<and>
   fst (kubota_leopoldt ext Map.empty 0 chi7_5 2) =
     Inr \<lparr>qp_prime = 5, qp_precision = 2, qp_valuation = Val 0, qp_unit = 24\<rparr> \<and>
   fst (kubota_leopoldt ext (snd (kubota_leopoldt ext Map.empty 0 chi7_1 2)) 0 chi7_5 2) =
     Inr (Qp_zero 5 2)"
proof -
  have "chi7_1 \<noteq> chi7_5" "modulus chi7_1 = modulus chi7_5"
    "conductor chi7_1 = conductor chi7_5" "chi_prime chi7_1 = chi_prime chi7_5"
    by (simp_all add: chi7_1_def chi7_5_def)
  then show ?thesis
    by (simp add: chi7_built kubota_leopoldt_def chi7_keys value_chi7_1 value_chi7_5)
qed

section \<open>The value at \<open>s = 0\<close>\<close>

lemma chi_principal_1_built: "trivial_character 1 5 = Some chi_principal_1"
  by code_simp

lemma chi1_eval_at: "evaluate_at chi_principal_1 5 = 1"
  by (simp add: evaluate_at_def chi_principal_1_def)

lemma teichmuller_one:
  "Zp_teichmuller \<lparr>zp_prime = 5, zp_precision = 10, zp_value = 1\<rparr>
     = Inr \<lparr>zp_prime = 5, zp_precision = 10, zp_value = 1\<rparr>"
  by (simp add: Zp_teichmuller_def teichmuller_character_def bpow_mod_def Zp_new_ok)

lemma chi1_eval: "evaluate chi_principal_1 5 10 = Inr \<lparr>zp_prime = 5, zp_precision = 10, zp_value = 1\<rparr>"
proof -
  have "Zp_new (chi_prime chi_principal_1) 10 1
      = Inr \<lparr>zp_prime = 5, zp_precision = 10, zp_value = 1\<rparr>"
    by (simp add: chi_principal_1_def Zp_new_ok)
  then show ?thesis
    by (simp add: evaluate_def chi1_eval_at ebind_def teichmuller_one)
qed

lemma chi1_one: "Qp_new 5 10 1 = Inr \<lparr>qp_prime = 5, qp_precision = 10, qp_valuation = Val 0, qp_unit = 1\<rparr>"
  by (simp add: Qp_new_def pval_not_dvd)

lemma chi1_euler: "compute_euler_factor chi_principal_1 1 10 = Inr (Qp_zero 5 10)"
proof -
  have p: "chi_prime chi_principal_1 = 5" "conductor chi_principal_1 = 1"
    by (simp_all add: chi_principal_1_def)
  have q: "Qp_of_Zp \<lparr>zp_prime = 5, zp_precision = 10, zp_value = 1\<rparr>
      = \<lparr>qp_prime = 5, qp_precision = 10, qp_valuation = Val 0, qp_unit = 1\<rparr>"
    by (simp add: Qp_of_Zp_def Qp_make_unit)
  show ?thesis
    by (simp add: compute_euler_factor_def p chi1_one chi1_eval ebind_def bmod_def bpow_def q
        Qp_mul_def Qp_make_unit Qp_sub_def Qp_make_zero)
qed

lemma chi1_B1: "compute_B1_chi chi_principal_1 10 =
   Inr \<lparr>qp_prime = 5, qp_precision = 10, qp_valuation = Val 0, qp_unit = 4882812\<rparr>"
proof -
  have i: "mod_inverse 2 (5 ^ 10) = Inr 4882813"
    by (simp add: mod_inverse_def xgcd.simps)
  show ?thesis
    using i by (simp add: compute_B1_chi_def is_principal_def chi_principal_1_def
      Qp_from_rational_def pval_not_dvd)
qed

lemma value_chi_principal_1: "compute_value ext 0 chi_principal_1 10 = Inr (Qp_zero 5 10)"
proof -
  have p: "chi_prime chi_principal_1 = 5" by (simp add: chi_principal_1_def)
  have z: "Qp_neg (Qp_zero 5 10) = Qp_zero 5 10"
    by (simp add: Qp_neg_def Qp_zero_def Qp_make_zero [unfolded Qp_zero_def] Qp_is_zero_def)
  show ?thesis
    by (simp add: compute_value_def p Qp_new_def ebind_def chi1_B1 chi1_euler z Qp_mul_def)
       (simp add: Qp_zero_def Qp_make_zero [unfolded Qp_zero_def])
qed

text \<open>
  Claim C1 says that \<open>kubota_leopoldt(0, chi, N)\<close> is
  \<open>-(1 - chi(p) * p^(-1)) * B\<^sub>1\<^sub>,\<^sub>c\<^sub>h\<^sub>i\<close>, and that for \<open>p = 5\<close>, \<open>N = 10\<close> and the
  principal character modulo 1 the value is \<open>2/5\<close>, of valuation \<open>-1\<close>. The code
  calls \<open>compute_euler_factor(chi, 1, precision)\<close>, which forms
  \<open>1 - chi(p) * p^(1 - 1)\<close>: for the principal character the factor is
  \<open>1 - 1 = 0\<close> and the returned value is the zero element, of valuation
  \<open>+\<infinity>\<close>, where \<open>2/5\<close> has valuation \<open>-1\<close> and unit 2.
\<close>

theorem kubota_leopoldt_principal_at_zero:
  "trivial_character 1 5 = Some chi_principal_1 \<and>
   compute_euler_factor chi_principal_1 1 10 = Inr (Qp_zero 5 10) \<and>
   fst (kubota_leopoldt ext Map.empty 0 chi_principal_1 10) = Inr (Qp_zero 5 10) \<and>
   qp_valuation (Qp_zero 5 10) = PosInf \<and>
   Qp_from_rational 2 5 5 10 =
     Inr \<lparr>qp_prime = 5, qp_precision = 10, qp_valuation = Val (- 1), qp_unit = 2\<rparr>"
proof -
  have i: "mod_inverse 1 (5 ^ 10) = Inr 1"
    by (simp add: mod_inverse_def xgcd.simps)
  have p: "p_adic_valuation 5 5 = 1"
    by (simp add: p_adic_valuation.simps [of 5 5] pval_not_dvd)
  have "Qp_from_rational 2 5 5 10 =
     Inr \<lparr>qp_prime = 5, qp_precision = 10, qp_valuation = Val (- 1), qp_unit = 2\<rparr>"
    using i p by (simp add: Qp_from_rational_def pval_not_dvd)
  then show ?thesis
    by (simp add: chi_principal_1_built chi1_euler kubota_leopoldt_def value_chi_principal_1
        Qp_zero_def)
qed

section \<open>The number of characters\<close>

lemma value_tuples_Cons_product:
  "value_tuples (m # ms) =
     map (\<lambda>(v, t). v # t) (List.product [0 .. m - 1] (value_tuples ms))"
  by (simp add: List.product_concat_map map_concat comp_def)

lemma length_value_tuples:
  "\<forall>m \<in> set ms. 0 \<le> m \<Longrightarrow> int (length (value_tuples ms)) = prod_list ms"
proof (induction ms)
  case Nil
  then show ?case by simp
next
  case (Cons m ms)
  have "int (length (value_tuples (m # ms)))
      = int (length [0 .. m - 1]) * int (length (value_tuples ms))"
    by (simp only: value_tuples_Cons_product length_map length_product of_nat_mult)
  also have "int (length [0 .. m - 1]) = m" using Cons.prems by simp
  also have "int (length (value_tuples ms)) = prod_list ms" using Cons by simp
  finally show ?case by simp
qed

lemma value_tuples_length: "vs \<in> set (value_tuples ms) \<Longrightarrow> length vs = length ms"
proof (induction ms arbitrary: vs)
  case Nil
  then show ?case by simp
next
  case (Cons m ms)
  then show ?case by (auto simp: value_tuples_Cons_product simp del: value_tuples.simps)
qed

lemma distinct_value_tuples: "distinct (value_tuples ms)"
proof (induction ms)
  case Nil
  then show ?case by simp
next
  case (Cons m ms)
  have "distinct (List.product [0 .. m - 1] (value_tuples ms))"
    using Cons by (intro distinct_product) simp_all
  moreover have "inj_on (\<lambda>(v, t). v # t) (set (List.product [0 .. m - 1] (value_tuples ms)))"
    by (auto simp: inj_on_def)
  ultimately show ?case
    by (simp only: value_tuples_Cons_product distinct_map)
qed

lemma compute_conductor_fields:
  "modulus (compute_conductor chi) = modulus chi"
  "chi_prime (compute_conductor chi) = chi_prime chi"
  "generators (compute_conductor chi) = generators chi"
  "generator_orders (compute_conductor chi) = generator_orders chi"
  "character_values (compute_conductor chi) = character_values chi"
  by (simp_all add: compute_conductor_def split: option.splits)

lemma character_of_values_spec:
  assumes "compute_generators n = Some (gs, os)" "length vs = length gs"
  shows "\<exists>chi. character_of_values n p vs = Some (Inr chi) \<and> character_values chi = vs"
  using assms by (simp add: character_of_values_def compute_conductor_fields)

lemma build_characters_spec:
  assumes "compute_generators n = Some (gs, os)"
  shows "\<forall>vs \<in> set vss. length vs = length gs \<Longrightarrow>
         \<exists>cs. build_characters n p vss = Some (Inr cs) \<and> map character_values cs = vss"
proof (induction vss)
  case Nil
  then show ?case by simp
next
  case (Cons vs vss)
  from character_of_values_spec [OF assms, of vs p] Cons.prems obtain chi where
    c: "character_of_values n p vs = Some (Inr chi)" "character_values chi = vs" by auto
  from Cons.IH Cons.prems obtain cs where
    b: "build_characters n p vss = Some (Inr cs)" "map character_values cs = vss" by auto
  have "build_characters n p (vs # vss) = Some (Inr (chi # cs))" using c(1) b(1) by simp
  with c(2) b(2) show ?case by simp
qed

text \<open>
  Claim C9. For every modulus \<open>n \<ge> 1\<close> and prime \<open>p\<close>,
  \<open>enumerate_characters(n, p)\<close> returns, without error, exactly \<open>phi(n)\<close>
  characters: their value vectors are the tuples \<open>(e\<^sub>1, ..., e\<^sub>r)\<close> with
  \<open>0 \<le> e\<^sub>i < m\<^sub>i\<close> over the generator orders \<open>m\<^sub>i\<close> that \<open>compute_generators\<close>
  finds, each tuple once. The modulus is a \<open>long\<close> with \<open>n \<le> 2^62\<close>: up to there
  the products \<open>p * p\<close>, \<open>d * d\<close> and \<open>pk * p\<close> of \<open>compute_generators\<close> stay in
  the range of \<open>long\<close>; the products of \<open>pow_mod\<close> may wrap, and the count does not
  depend on them.
\<close>

theorem enumerate_characters_count:
  assumes "1 \<le> n" "n \<le> 2 ^ 62"
  shows "\<exists>gs os cs. compute_generators n = Some (gs, os) \<and>
           enumerate_characters n p = Some (Inr cs) \<and>
           map character_values cs = value_tuples os \<and>
           distinct (map character_values cs) \<and>
           int (length cs) = phi n"
proof -
  from compute_generators_spec [OF assms] obtain gs os where
    g: "compute_generators n = Some (gs, os)" "length gs = length os"
      "prod_list os = phi n" "\<forall>m \<in> set os. 1 \<le> m" by blast
  have nonneg: "\<forall>m \<in> set os. 0 \<le> m" using g(4) by auto
  have len: "int (length (value_tuples os)) = phi n"
    using length_value_tuples [OF nonneg] g(3) by simp
  have base: "trivial_character n p =
      Some \<lparr>conductor = n, modulus = n, chi_prime = p, generators = gs,
            generator_orders = os, character_values = replicate (length gs) 0\<rparr>"
    using g(1) by (simp add: trivial_character_def)
  have "\<exists>cs. enumerate_characters n p = Some (Inr cs) \<and>
          map character_values cs = value_tuples os"
  proof (cases "gs = []")
    case True
    with g(2) have "os = []" by simp
    with True base show ?thesis by (simp add: enumerate_characters_def)
  next
    case False
    have "\<forall>vs \<in> set (value_tuples os). length vs = length gs"
      using g(2) by (simp add: value_tuples_length)
    from build_characters_spec [OF g(1) this, of p] obtain cs where
      "build_characters n p (value_tuples os) = Some (Inr cs)"
      "map character_values cs = value_tuples os" by blast
    with False base show ?thesis by (simp add: enumerate_characters_def)
  qed
  then obtain cs where c: "enumerate_characters n p = Some (Inr cs)"
    "map character_values cs = value_tuples os" by blast
  have "length cs = length (value_tuples os)" using c(2) by (metis length_map)
  with len have "int (length cs) = phi n" by simp
  then show ?thesis
    using g(1) c distinct_value_tuples [of os] by (intro exI [of _ gs] exI [of _ os] exI [of _ cs]) simp
qed

theorem enumerate_characters_count_witness:
  "(1::int) \<le> 12 \<and> (12::int) \<le> 2 ^ 62 \<and>
   (\<exists>gs os cs. compute_generators 12 = Some (gs, os) \<and>
      enumerate_characters 12 3 = Some (Inr cs) \<and>
      map character_values cs = value_tuples os \<and>
      distinct (map character_values cs) \<and>
      int (length cs) = phi 12) \<and>
   phi 12 = 4"
proof -
  have "phi 12 = 4" by code_simp
  then show ?thesis using enumerate_characters_count [of 12 3] by simp
qed

section \<open>The domain of the logarithm\<close>

text \<open>
  Claim C5. For a prime \<open>p\<close> and every \<open>Qp\<close> value \<open>x\<close>: \<open>PadicLog::log(x)\<close>
  raises a domain error exactly when \<open>x\<close> is zero, or \<open>x\<close> has nonzero
  valuation, or \<open>x\<close> is not congruent to 1 modulo \<open>p\<close> (modulo 4 for \<open>p = 2\<close>);
  on every \<open>x\<close> that satisfies all the conditions it returns a value without
  error.
\<close>

theorem PadicLog_log_domain:
  assumes "Qp_inv x" "is_prime (qp_prime x)"
  shows "if in_log_domain x then \<exists>y. PadicLog_log x = Some (Inr y)
         else PadicLog_log x = Some (Inl DomainError)"
proof (cases "Qp_is_zero x \<or> qp_valuation x \<noteq> Val 0")
  case True
  then show ?thesis by (auto simp: PadicLog_log_def in_log_domain_def)
next
  case False
  let ?p = "qp_prime x" and ?N = "qp_precision x"
  have p: "2 \<le> ?p" and N: "1 \<le> ?N" using assms(1) by (simp_all add: Qp_inv_def)
  from count_p_divides_returns [OF p, of ?p 0 ?N] p obtain c where
    c: "count_p_divides ?p ?p ?N 0 = Some c" "0 \<le> c" by auto
  have wp: "1 \<le> ?N + c + 5" using N c(2) by simp
  have e: "PadicLog_log x = Some (log_at_precision x (?N + c + 5))"
    using False c(1) by (simp add: PadicLog_log_def)
  from False have nz: "\<not> Qp_is_zero x" and v0: "qp_valuation x = Val 0" by simp_all
  show ?thesis
    using log_at_precision_eq [OF assms nz v0 wp] nz v0
    by (simp add: e in_log_domain_def split: if_splits)
qed

theorem PadicLog_log_domain_witness:
  "Qp_inv three_adic_four \<and> is_prime (qp_prime three_adic_four) \<and>
   in_log_domain three_adic_four \<and>
   PadicLog_log three_adic_four =
     Some (Inr \<lparr>qp_prime = 3, qp_precision = 3, qp_valuation = Val 1, qp_unit = 16\<rparr>) \<and>
   Qp_inv two_adic_one \<and> is_prime (qp_prime two_adic_one) \<and>
   in_log_domain two_adic_one \<and>
   PadicLog_log two_adic_one = Some (Inr (Qp_zero 2 1))"
proof -
  have a: "Qp_inv three_adic_four" by (simp add: Qp_inv_def three_adic_four_def)
  have b: "is_prime (qp_prime three_adic_four)"
    by (simp add: three_adic_four_def is_prime_three)
  have c: "in_log_domain three_adic_four"
    by (simp add: in_log_domain_def three_adic_four_def Qp_is_zero_def congruent_one_def)
  have d: "PadicLog_log three_adic_four =
     Some (Inr \<lparr>qp_prime = 3, qp_precision = 3, qp_valuation = Val 1, qp_unit = 16\<rparr>)"
    by code_simp
  have a2: "Qp_inv two_adic_one" by (simp add: Qp_inv_def two_adic_one_def)
  have b2: "is_prime (qp_prime two_adic_one)"
    by (simp add: two_adic_one_def is_prime_two)
  have c2: "in_log_domain two_adic_one"
    by (simp add: in_log_domain_def two_adic_one_def Qp_is_zero_def congruent_one_def)
  have d2: "PadicLog_log two_adic_one = Some (Inr (Qp_zero 2 1))"
    by code_simp
  show ?thesis
    using PadicLog_log_domain [OF a b] PadicLog_log_domain [OF a2 b2] a b c d a2 b2 c2 d2
    by simp
qed

section \<open>The logarithm of a product\<close>

text \<open>
  Claim C6. For all \<open>x\<close> and \<open>y\<close> of \<open>Q\<^sub>p\<close> with valuation 0 and congruent to 1
  modulo \<open>p\<close> (modulo 4 when \<open>p = 2\<close>), \<open>log(x * y) = log(x) + log(y)\<close> to the
  returned precision. The product, the three logarithms and the sum are all
  returned without error; \<open>log(x * y)\<close> and \<open>log(x) + log(y)\<close> both carry the
  precision \<open>N = min(N\<^sub>x, N\<^sub>y)\<close>, and their difference has valuation at least \<open>N\<close>:
  the two sides are congruent modulo \<open>p\<^sup>N\<close>.
\<close>

theorem PadicLog_log_additive:
  assumes "Qp_inv x" "Qp_inv y" "is_prime (qp_prime x)" "qp_prime y = qp_prime x"
    "in_log_domain x" "in_log_domain y"
  shows "\<exists>xy lxy lx ly s.
     Qp_mul x y = Inr xy \<and> PadicLog_log xy = Some (Inr lxy) \<and>
     PadicLog_log x = Some (Inr lx) \<and> PadicLog_log y = Some (Inr ly) \<and>
     Qp_add lx ly = Inr s \<and>
     qp_precision lxy = min (qp_precision x) (qp_precision y) \<and>
     qp_precision s = min (qp_precision x) (qp_precision y) \<and>
     equal_to_precision lxy s"
proof -
  let ?p = "qp_prime x" and ?Nx = "qp_precision x" and ?Ny = "qp_precision y"
  let ?xu = "qp_unit x" and ?yu = "qp_unit y"
  define M where "M = min ?Nx ?Ny"
  define z where "z = (?xu * ?yu) mod ?p ^ nat M"
  define xy where
    "xy = \<lparr>qp_prime = ?p, qp_precision = M, qp_valuation = Val 0, qp_unit = z\<rparr>"
  have p: "2 \<le> ?p" and Nx: "1 \<le> ?Nx" and Ny: "1 \<le> ?Ny"
    using assms(1,2) by (simp_all add: Qp_inv_def)
  have M1: "1 \<le> M" and Mx: "M \<le> ?Nx" and My: "M \<le> ?Ny" using Nx Ny by (simp_all add: M_def)
  have mul: "Qp_mul x y = Inr xy" and xyi: "Qp_inv xy" and xyd: "in_log_domain xy"
    unfolding xy_def z_def M_def using assms by (rule product_in_domain)+
  have xyp: "qp_prime xy = ?p" "qp_precision xy = M" "qp_unit xy = z" by (simp_all add: xy_def)
  have pry: "is_prime (qp_prime y)" using assms(3,4) by simp
  have prz: "is_prime (qp_prime xy)" using assms(3) by (simp add: xyp)
  from log_characterisation [OF assms(1,3,5)] obtain lx Kx where
    lx: "PadicLog_log x = Some (Inr lx)" "qp_int ?p ?Nx lx"
      "\<forall>K\<ge>Kx. ?p ^ (K + nat ?Nx) dvd ?xu ^ (nat ?p ^ K) - 1 - ?p ^ K * qp_value lx"
    by blast
  from log_characterisation [OF assms(2) pry assms(6)] obtain ly Ky where
    ly: "PadicLog_log y = Some (Inr ly)" "qp_int ?p ?Ny ly"
      "\<forall>K\<ge>Ky. ?p ^ (K + nat ?Ny) dvd ?yu ^ (nat ?p ^ K) - 1 - ?p ^ K * qp_value ly"
    unfolding assms(4) by blast
  from log_characterisation [OF xyi prz xyd] obtain lz Kz where
    lz: "PadicLog_log xy = Some (Inr lz)" "qp_int ?p M lz"
      "\<forall>K\<ge>Kz. ?p ^ (K + nat M) dvd z ^ (nat ?p ^ K) - 1 - ?p ^ K * qp_value lz"
    unfolding xyp by blast
  from Qp_add_value [OF p lx(2) ly(2) M_def] obtain s where
    s: "Qp_add lx ly = Inr s" "qp_int ?p M s"
      "?p ^ nat M dvd qp_value s - (qp_value lx + qp_value ly)" by blast
  define K where "K = max (max Kx Ky) (max Kz (nat M))"
  have Kb: "Kx \<le> K" "Ky \<le> K" "Kz \<le> K" "nat M \<le> K" by (simp_all add: K_def)
  let ?q = "nat ?p ^ K"
  have "?p ^ (K + nat M) dvd ?p ^ (K + nat ?Nx)" using Mx by (intro le_imp_power_dvd) simp
  moreover have "?p ^ (K + nat ?Nx) dvd ?xu ^ ?q - 1 - ?p ^ K * qp_value lx"
    using lx(3) Kb(1) by blast
  ultimately have hx: "?p ^ (K + nat M) dvd ?xu ^ ?q - 1 - ?p ^ K * qp_value lx"
    by (rule dvd_trans)
  have "?p ^ (K + nat M) dvd ?p ^ (K + nat ?Ny)" using My by (intro le_imp_power_dvd) simp
  moreover have "?p ^ (K + nat ?Ny) dvd ?yu ^ ?q - 1 - ?p ^ K * qp_value ly"
    using ly(3) Kb(2) by blast
  ultimately have hy: "?p ^ (K + nat M) dvd ?yu ^ ?q - 1 - ?p ^ K * qp_value ly"
    by (rule dvd_trans)
  have hz: "?p ^ (K + nat M) dvd z ^ ?q - 1 - ?p ^ K * qp_value lz"
    using lz(3) Kb(3) by blast
  have "z mod ?p ^ nat M = (?xu * ?yu) mod ?p ^ nat M" by (simp add: z_def)
  then have zc: "?p ^ nat M dvd z - ?xu * ?yu" by (simp only: mod_eq_dvd_iff)
  have nM: "1 \<le> nat M" using M1 by simp
  from lift_power [OF p nM zc, of K]
  have hzz: "?p ^ (K + nat M) dvd z ^ ?q - (?xu * ?yu) ^ ?q" by (simp add: add.commute)
  from log_characterisation_additive [OF p Kb(4) hx hy hz hzz]
  have ad: "?p ^ nat M dvd qp_value lz - (qp_value lx + qp_value ly)" .
  have "?p ^ nat M dvd (qp_value lz - (qp_value lx + qp_value ly))
      - (qp_value s - (qp_value lx + qp_value ly))" using ad s(3) by (rule dvd_diff)
  then have dv: "?p ^ nat M dvd qp_value lz - qp_value s" by simp
  have M0: "0 \<le> M" using M1 by simp
  from Qp_sub_high_valuation [OF assms(3) lz(2) s(2) M0 dv] obtain d where
    d: "Qp_sub lz s = Inr d" "val_ge (qp_valuation d) M" by blast
  have pz: "qp_precision lz = M" and ps: "qp_precision s = M"
    using lz(2) s(2) by (simp_all add: qp_int_def)
  have eq: "equal_to_precision lz s" using d by (simp add: equal_to_precision_def pz ps)
  show ?thesis
    using mul lz(1) lx(1) ly(1) s(1) pz ps eq unfolding M_def
    by (intro exI [of _ xy] exI [of _ lz] exI [of _ lx] exI [of _ ly] exI [of _ s] conjI)
qed

theorem PadicLog_log_additive_witness:
  "Qp_inv three_adic_four \<and> Qp_inv three_adic_ten \<and>
   is_prime (qp_prime three_adic_four) \<and> qp_prime three_adic_ten = qp_prime three_adic_four \<and>
   in_log_domain three_adic_four \<and> in_log_domain three_adic_ten \<and>
   Qp_mul three_adic_four three_adic_ten =
     Inr \<lparr>qp_prime = 3, qp_precision = 3, qp_valuation = Val 0, qp_unit = 13\<rparr> \<and>
   PadicLog_log \<lparr>qp_prime = 3, qp_precision = 3, qp_valuation = Val 0, qp_unit = 13\<rparr> =
     Some (Inr \<lparr>qp_prime = 3, qp_precision = 3, qp_valuation = Val 1, qp_unit = 10\<rparr>) \<and>
   PadicLog_log three_adic_four =
     Some (Inr \<lparr>qp_prime = 3, qp_precision = 3, qp_valuation = Val 1, qp_unit = 16\<rparr>) \<and>
   PadicLog_log three_adic_ten =
     Some (Inr \<lparr>qp_prime = 3, qp_precision = 3, qp_valuation = Val 2, qp_unit = 10\<rparr>) \<and>
   Qp_add \<lparr>qp_prime = 3, qp_precision = 3, qp_valuation = Val 1, qp_unit = 16\<rparr>
          \<lparr>qp_prime = 3, qp_precision = 3, qp_valuation = Val 2, qp_unit = 10\<rparr> =
     Inr \<lparr>qp_prime = 3, qp_precision = 3, qp_valuation = Val 1, qp_unit = 19\<rparr> \<and>
   equal_to_precision
     \<lparr>qp_prime = 3, qp_precision = 3, qp_valuation = Val 1, qp_unit = 10\<rparr>
     \<lparr>qp_prime = 3, qp_precision = 3, qp_valuation = Val 1, qp_unit = 19\<rparr>"
proof -
  have a: "Qp_inv three_adic_four" "Qp_inv three_adic_ten"
    by (simp_all add: Qp_inv_def three_adic_four_def three_adic_ten_def)
  have b: "is_prime (qp_prime three_adic_four)"
    by (simp add: three_adic_four_def is_prime_three)
  have c: "qp_prime three_adic_ten = qp_prime three_adic_four"
    by (simp add: three_adic_four_def three_adic_ten_def)
  have d: "in_log_domain three_adic_four" "in_log_domain three_adic_ten"
    by (simp_all add: in_log_domain_def three_adic_four_def three_adic_ten_def Qp_is_zero_def
        congruent_one_def)
  have m: "Qp_mul three_adic_four three_adic_ten =
     Inr \<lparr>qp_prime = 3, qp_precision = 3, qp_valuation = Val 0, qp_unit = 13\<rparr>"
    by code_simp
  have l13: "PadicLog_log \<lparr>qp_prime = 3, qp_precision = 3, qp_valuation = Val 0, qp_unit = 13\<rparr> =
     Some (Inr \<lparr>qp_prime = 3, qp_precision = 3, qp_valuation = Val 1, qp_unit = 10\<rparr>)"
    by code_simp
  have l4: "PadicLog_log three_adic_four =
     Some (Inr \<lparr>qp_prime = 3, qp_precision = 3, qp_valuation = Val 1, qp_unit = 16\<rparr>)"
    by code_simp
  have l10: "PadicLog_log three_adic_ten =
     Some (Inr \<lparr>qp_prime = 3, qp_precision = 3, qp_valuation = Val 2, qp_unit = 10\<rparr>)"
    by code_simp
  have s: "Qp_add \<lparr>qp_prime = 3, qp_precision = 3, qp_valuation = Val 1, qp_unit = 16\<rparr>
          \<lparr>qp_prime = 3, qp_precision = 3, qp_valuation = Val 2, qp_unit = 10\<rparr> =
     Inr \<lparr>qp_prime = 3, qp_precision = 3, qp_valuation = Val 1, qp_unit = 19\<rparr>"
    by code_simp
  show ?thesis
    using PadicLog_log_additive [OF a b c d] a b c d
    by (simp add: m l13 l4 l10 s)
qed

end
